theory Spec2Isabelle
  imports Complex_Main "HOL-Library.Word" "HOL-Library.Monad_Syntax" "HOL-Library.Log_Nat"
    "HOL-Library.Multiset"
begin

unbundle bit_operations_syntax

section \<open>Machine integers of the C sources\<close>

text \<open>
  \<open>uint64_t\<close> and \<open>uint32_t\<close> are words: \<open>+\<close>, \<open>*\<close> and unary \<open>-\<close> wrap around,
  \<open>ucast\<close> is the (implicit or explicit) conversion between the two widths.
\<close>

type_synonym uint64_t = "64 word"
type_synonym uint32_t = "32 word"

text \<open>
  The shifts of a 32-bit unsigned value by a run-time count. C leaves a shift by a count
  of 32 or more undefined, so the model returns \<open>None\<close> there: a theorem that a generation
  routine returns \<open>Some\<close> also says that no undefined shift is executed.
\<close>

definition shr_u32 :: "uint32_t \<Rightarrow> uint32_t \<Rightarrow> uint32_t option" where
  "shr_u32 x n = (if unat n < 32 then Some (drop_bit (unat n) x) else None)"

definition shl_u32 :: "uint32_t \<Rightarrow> uint32_t \<Rightarrow> uint32_t option" where
  "shl_u32 x n = (if unat n < 32 then Some (push_bit (unat n) x) else None)"

section \<open>The PCG32 engine (pcg32.h, pcg32.c)\<close>

text \<open>The struct \<open>pcg32_random_t\<close> of pcg32.h; the field \<open>inc\<close> is written \<open>inc'\<close>.\<close>

record pcg32_random_t =
  state :: uint64_t
  inc' :: uint64_t

text \<open>
  The return expression of every generation routine of the repository,
  \<^verbatim>\<open>(xorshifted >> rot) | (xorshifted << ((-rot) & 31))\<close>, on \<open>uint32_t\<close> operands:
  unary minus wraps modulo \<open>2 ^ 32\<close>, and each shift is defined only for a count
  below 32.
\<close>

definition rotate_expr :: "uint32_t \<Rightarrow> uint32_t \<Rightarrow> uint32_t option" where
  "rotate_expr xorshifted rot =
     do {
       hi \<leftarrow> shr_u32 xorshifted rot;
       lo \<leftarrow> shl_u32 xorshifted ((- rot) AND 31);
       Some (hi OR lo)
     }"

text \<open>
  \<open>pcg32_random_r\<close> of pcg32.c: the generator is passed in and returned updated, next to
  the 32-bit result.
\<close>

definition pcg32_random_r :: "pcg32_random_t \<Rightarrow> (uint32_t \<times> pcg32_random_t) option" where
  "pcg32_random_r rng =
     (let oldstate = state rng;
          rng1 = rng\<lparr>state := oldstate * 6364136223846793005 + (inc' rng OR 1)\<rparr>;
          xorshifted = (ucast (drop_bit 27 (drop_bit 18 oldstate XOR oldstate)) :: uint32_t);
          rot = (ucast (drop_bit 59 oldstate) :: uint32_t)
      in do {
        r \<leftarrow> rotate_expr xorshifted rot;
        Some (r, rng1)
      })"

text \<open>\<open>pcg32_srandom_r\<close> of pcg32.c; the results of the two warm-up calls are dropped.\<close>

definition pcg32_srandom_r ::
  "pcg32_random_t \<Rightarrow> uint64_t \<Rightarrow> uint64_t \<Rightarrow> pcg32_random_t option" where
  "pcg32_srandom_r rng initstate initseq =
     (let rng1 = rng\<lparr>state := 0\<rparr>;
          rng2 = rng1\<lparr>inc' := push_bit 1 initseq OR 1\<rparr>
      in do {
        (_, rng3) \<leftarrow> pcg32_random_r rng2;
        let rng4 = rng3\<lparr>state := state rng3 + initstate\<rparr>;
        (_, rng5) \<leftarrow> pcg32_random_r rng4;
        Some rng5
      })"

section \<open>The copies in the random-walk programs\<close>

text \<open>
  main\_dat.c (suffix \<open>_1d\<close>) and 2d\_ran\_walk.c (suffix \<open>_2d\<close>) each carry their own
  \<open>pcg32_random_r\<close> and \<open>pcg32_srandom_r\<close>.
\<close>

definition pcg32_random_r_1d :: "pcg32_random_t \<Rightarrow> (uint32_t \<times> pcg32_random_t) option" where
  "pcg32_random_r_1d rng =
     (let oldstate = state rng;
          rng1 = rng\<lparr>state := oldstate * 6364136223846793005 + (inc' rng OR 1)\<rparr>;
          xorshifted = (ucast (drop_bit 27 (drop_bit 18 oldstate XOR oldstate)) :: uint32_t);
          rot = (ucast (drop_bit 59 oldstate) :: uint32_t)
      in do {
        r \<leftarrow> rotate_expr xorshifted rot;
        Some (r, rng1)
      })"

definition pcg32_srandom_r_1d ::
  "pcg32_random_t \<Rightarrow> uint64_t \<Rightarrow> uint64_t \<Rightarrow> pcg32_random_t option" where
  "pcg32_srandom_r_1d rng initstate initseq =
     (let rng1 = rng\<lparr>state := 0\<rparr>;
          rng2 = rng1\<lparr>inc' := push_bit 1 initseq OR 1\<rparr>
      in do {
        (_, rng3) \<leftarrow> pcg32_random_r_1d rng2;
        let rng4 = rng3\<lparr>state := state rng3 + initstate\<rparr>;
        (_, rng5) \<leftarrow> pcg32_random_r_1d rng4;
        Some rng5
      })"

definition pcg32_random_r_2d :: "pcg32_random_t \<Rightarrow> (uint32_t \<times> pcg32_random_t) option" where
  "pcg32_random_r_2d rng =
     (let oldstate = state rng;
          rng1 = rng\<lparr>state := oldstate * 6364136223846793005 + (inc' rng OR 1)\<rparr>;
          xorshifted = (ucast (drop_bit 27 (drop_bit 18 oldstate XOR oldstate)) :: uint32_t);
          rot = (ucast (drop_bit 59 oldstate) :: uint32_t)
      in do {
        r \<leftarrow> rotate_expr xorshifted rot;
        Some (r, rng1)
      })"

definition pcg32_srandom_r_2d ::
  "pcg32_random_t \<Rightarrow> uint64_t \<Rightarrow> uint64_t \<Rightarrow> pcg32_random_t option" where
  "pcg32_srandom_r_2d rng initstate initseq =
     (let rng1 = rng\<lparr>state := 0\<rparr>;
          rng2 = rng1\<lparr>inc' := push_bit 1 initseq OR 1\<rparr>
      in do {
        (_, rng3) \<leftarrow> pcg32_random_r_2d rng2;
        let rng4 = rng3\<lparr>state := state rng3 + initstate\<rparr>;
        (_, rng5) \<leftarrow> pcg32_random_r_2d rng4;
        Some rng5
      })"

section \<open>The seed generator (seed\_generator.c)\<close>

text \<open>
  Both seed\_generator.c files keep one file-local generator \<open>rng_state\<close>, which only
  the functions of the file can reach. The functions take it as an argument and return
  it updated. \<open>pcg32_random\<close> adds \<open>inc\<close> as it is, without \<open>| 1\<close>.
\<close>

definition rng_state_initial :: pcg32_random_t where
  "rng_state_initial = \<lparr>state = 0x853c49e6748fea9b, inc' = 0xda3e39cb94b95bdb\<rparr>"

text \<open>01\_1d\_random\_walk/src/seed\_generator.c.\<close>

definition pcg32_random :: "pcg32_random_t \<Rightarrow> (uint32_t \<times> pcg32_random_t) option" where
  "pcg32_random rng_state =
     (let oldstate = state rng_state;
          rng1 = rng_state\<lparr>state := oldstate * 6364136223846793005 + inc' rng_state\<rparr>;
          xorshifted = (ucast (drop_bit 27 (drop_bit 18 oldstate XOR oldstate)) :: uint32_t);
          rot = (ucast (drop_bit 59 oldstate) :: uint32_t)
      in do {
        r \<leftarrow> rotate_expr xorshifted rot;
        Some (r, rng1)
      })"

definition pcg32_srandom ::
  "pcg32_random_t \<Rightarrow> uint64_t \<Rightarrow> uint64_t \<Rightarrow> pcg32_random_t option" where
  "pcg32_srandom rng_state initstate initseq =
     (let rng1 = rng_state\<lparr>state := 0\<rparr>;
          rng2 = rng1\<lparr>inc' := push_bit 1 initseq OR 1\<rparr>
      in do {
        (_, rng3) \<leftarrow> pcg32_random rng2;
        let rng4 = rng3\<lparr>state := state rng3 + initstate\<rparr>;
        (_, rng5) \<leftarrow> pcg32_random rng4;
        Some rng5
      })"

definition seedgen_init ::
  "pcg32_random_t \<Rightarrow> uint64_t \<Rightarrow> uint64_t \<Rightarrow> pcg32_random_t option" where
  "seedgen_init rng_state st seq = pcg32_srandom rng_state st seq"

definition generate_seed :: "pcg32_random_t \<Rightarrow> (uint32_t \<times> pcg32_random_t) option" where
  "generate_seed rng_state = pcg32_random rng_state"

text \<open>02\_2d\_random\_walk/src/seed\_generator.c (suffix \<open>_2d\<close>).\<close>

definition pcg32_random_2d :: "pcg32_random_t \<Rightarrow> (uint32_t \<times> pcg32_random_t) option" where
  "pcg32_random_2d rng_state =
     (let oldstate = state rng_state;
          rng1 = rng_state\<lparr>state := oldstate * 6364136223846793005 + inc' rng_state\<rparr>;
          xorshifted = (ucast (drop_bit 27 (drop_bit 18 oldstate XOR oldstate)) :: uint32_t);
          rot = (ucast (drop_bit 59 oldstate) :: uint32_t)
      in do {
        r \<leftarrow> rotate_expr xorshifted rot;
        Some (r, rng1)
      })"

definition pcg32_srandom_2d ::
  "pcg32_random_t \<Rightarrow> uint64_t \<Rightarrow> uint64_t \<Rightarrow> pcg32_random_t option" where
  "pcg32_srandom_2d rng_state initstate initseq =
     (let rng1 = rng_state\<lparr>state := 0\<rparr>;
          rng2 = rng1\<lparr>inc' := push_bit 1 initseq OR 1\<rparr>
      in do {
        (_, rng3) \<leftarrow> pcg32_random_2d rng2;
        let rng4 = rng3\<lparr>state := state rng3 + initstate\<rparr>;
        (_, rng5) \<leftarrow> pcg32_random_2d rng4;
        Some rng5
      })"

definition seedgen_init_2d ::
  "pcg32_random_t \<Rightarrow> uint64_t \<Rightarrow> uint64_t \<Rightarrow> pcg32_random_t option" where
  "seedgen_init_2d rng_state st seq = pcg32_srandom_2d rng_state st seq"

definition generate_seed_2d :: "pcg32_random_t \<Rightarrow> (uint32_t \<times> pcg32_random_t) option" where
  "generate_seed_2d rng_state = pcg32_random_2d rng_state"

text \<open>
  \<open>rng_state\<close> is \<open>static\<close>, and \<open>pcg32_random(void)\<close> takes no generator: the only
  generators it ever works on are the values that \<open>rng_state\<close> can hold. These are the
  initializer, the same in both files, and what the statements of the file that write
  \<open>rng_state\<close> make of such a value: in \<open>pcg32_srandom\<close> the assignments
  \<open>rng_state.state = 0U\<close>, \<open>rng_state.inc = (initseq << 1u) | 1u\<close> and
  \<open>rng_state.state += initstate\<close>, for any arguments, and the transition of
  \<open>pcg32_random\<close> itself.
\<close>

inductive rng_state_reachable :: "pcg32_random_t \<Rightarrow> bool" where
  initializer: "rng_state_reachable rng_state_initial"
| srandom_state: "rng_state_reachable m \<Longrightarrow> rng_state_reachable (m\<lparr>state := 0\<rparr>)"
| srandom_inc:
    "rng_state_reachable m \<Longrightarrow> rng_state_reachable (m\<lparr>inc' := push_bit 1 initseq OR 1\<rparr>)"
| srandom_add:
    "rng_state_reachable m \<Longrightarrow> rng_state_reachable (m\<lparr>state := state m + initstate\<rparr>)"
| random:
    "rng_state_reachable m \<Longrightarrow> pcg32_random m = Some (r, m1) \<Longrightarrow> rng_state_reachable m1"
| random_2d:
    "rng_state_reachable m \<Longrightarrow> pcg32_random_2d m = Some (r, m1) \<Longrightarrow> rng_state_reachable m1"

code_pred rng_state_reachable .

section \<open>The specification's formulas\<close>

text \<open>
  The state transition and the output permutation in the words of the specification:
  \<open>old * 6364136223846793005 + (increment | 1)\<close>, and the 32-bit truncation of
  \<open>((old >> 18) ^ old) >> 27\<close> rotated right by \<open>old >> 59\<close>.
\<close>

definition spec_transition :: "uint64_t \<Rightarrow> uint64_t \<Rightarrow> uint64_t" where
  "spec_transition increment old = old * 6364136223846793005 + (increment OR 1)"

definition spec_output :: "uint64_t \<Rightarrow> uint32_t" where
  "spec_output old =
     word_rotr (unat (drop_bit 59 old)) (ucast (drop_bit 27 (drop_bit 18 old XOR old)))"

text \<open>\<open>n\<close> successive calls of \<open>pcg32_random_r\<close>, keeping the generator only.\<close>

fun pcg32_random_r_times :: "nat \<Rightarrow> pcg32_random_t \<Rightarrow> pcg32_random_t option" where
  "pcg32_random_r_times 0 rng = Some rng"
| "pcg32_random_r_times (Suc n) rng =
     do { (_, rng1) \<leftarrow> pcg32_random_r rng; pcg32_random_r_times n rng1 }"

section \<open>Properties of the engine\<close>

subsection \<open>The rotation is a rotate-right and never shifts by 32\<close>

lemma unat_top5: "unat (ucast (drop_bit 59 (s::uint64_t)) :: uint32_t) = unat (drop_bit 59 s)"
  and unat_top5_less: "unat (drop_bit 59 (s::uint64_t)) < 32"
proof -
  have "unat s < 2 ^ 64" using unsigned_less [of s] by simp
  then have "unat s div 2 ^ 59 < 32" by simp
  moreover have "unat (drop_bit 59 s) = unat s div 2 ^ 59"
    unfolding unat_drop_bit_eq by (rule drop_bit_eq_div)
  ultimately show b: "unat (drop_bit 59 s) < 32" by (simp only:)
  then show "unat (ucast (drop_bit 59 s) :: uint32_t) = unat (drop_bit 59 s)"
    by (simp add: unsigned_ucast_eq take_bit_eq_mod)
qed

lemma unat_neg_and_31:
  assumes a: "unat (r::uint32_t) < 32"
  shows "unat ((- r) AND 31) = (32 - unat r) mod 32"
proof -
  have m: "(31 :: uint32_t) = mask 5" by (simp add: mask_eq_exp_minus_1)
  have "(- r) AND 31 = take_bit 5 (- r)"
    unfolding m by (rule take_bit_eq_mask [symmetric])
  then have "unat ((- r) AND 31) = take_bit 5 (unat (- r))"
    by (simp only: unsigned_take_bit_eq)
  also have "\<dots> = unat (- r) mod 32"
    unfolding take_bit_eq_mod by simp
  finally have step: "unat ((- r) AND 31) = unat (- r) mod 32" .
  show ?thesis
  proof (cases "r = 0")
    case True
    then show ?thesis by simp
  next
    case False
    then have pos: "0 < unat r" by (simp add: unat_gt_0)
    have "unat (- r) = 2 ^ 32 - unat r"
      using pos unat_sub_if' [of 0 r] by simp
    then have "unat (- r) = 134217727 * 32 + (32 - unat r)"
      using a by simp
    then have "unat (- r) mod 32 = (32 - unat r) mod 32"
      by (simp only: mod_mult_self3)
    with step show ?thesis by simp
  qed
qed

lemma rotr_as_shifts:
  "k < 32 \<Longrightarrow> drop_bit k (x::uint32_t) OR push_bit ((32 - k) mod 32) x = word_rotr k x"
proof (rule bit_word_eqI)
  fix n assume k: "k < 32" and n: "n < LENGTH(32)"
  show "bit (drop_bit k x OR push_bit ((32 - k) mod 32) x) n = bit (word_rotr k x) n"
  proof (cases "k = 0")
    case True then show ?thesis using n by (simp add: bit_simps)
  next
    case False
    then have m: "(32 - k) mod 32 = 32 - k" using k by simp
    show ?thesis
    proof (cases "n + k < 32")
      case True
      then show ?thesis using n k unfolding m by (auto simp: bit_simps ac_simps)
    next
      case False
      then have "(n + k) mod 32 = n + k - 32" using n k
        by (simp add: mod_if) 
      moreover have "\<not> bit x (n + k)" using False by (auto dest: bit_imp_le_length)
      moreover have "n + k - 32 = n - (32 - k)" using False k by simp
      ultimately show ?thesis using n k False unfolding m by (auto simp: bit_simps ac_simps)
    qed
  qed
qed

lemma rotate_expr_rotr:
  assumes "unat rot < 32"
  shows "rotate_expr x rot = Some (word_rotr (unat rot) x)"
proof -
  have "unat ((- rot) AND 31) < 32"
    using unat_neg_and_31 [OF assms] by simp
  then show ?thesis
    using assms
    by (simp add: rotate_expr_def shr_u32_def shl_u32_def unat_neg_and_31 rotr_as_shifts)
qed

lemma rotate_expr_top5:
  "rotate_expr (ucast (drop_bit 27 (drop_bit 18 old XOR old))) (ucast (drop_bit 59 (old::uint64_t)))
     = Some (spec_output old)"
  using rotate_expr_rotr [of "ucast (drop_bit 59 old)"]
  by (simp add: unat_top5 unat_top5_less spec_output_def)

lemma pcg32_random_r_eq:
  "pcg32_random_r rng =
     Some (spec_output (state rng), rng\<lparr>state := spec_transition (inc' rng) (state rng)\<rparr>)"
  unfolding pcg32_random_r_def Let_def rotate_expr_top5 spec_transition_def by simp

lemma pcg32_random_r_1d_eq:
  "pcg32_random_r_1d rng =
     Some (spec_output (state rng), rng\<lparr>state := spec_transition (inc' rng) (state rng)\<rparr>)"
  unfolding pcg32_random_r_1d_def Let_def rotate_expr_top5 spec_transition_def by simp

lemma pcg32_random_r_2d_eq:
  "pcg32_random_r_2d rng =
     Some (spec_output (state rng), rng\<lparr>state := spec_transition (inc' rng) (state rng)\<rparr>)"
  unfolding pcg32_random_r_2d_def Let_def rotate_expr_top5 spec_transition_def by simp

lemma pcg32_random_eq:
  "pcg32_random rng =
     Some (spec_output (state rng),
           rng\<lparr>state := state rng * 6364136223846793005 + inc' rng\<rparr>)"
  unfolding pcg32_random_def Let_def rotate_expr_top5 by simp

lemma pcg32_random_2d_eq:
  "pcg32_random_2d rng =
     Some (spec_output (state rng),
           rng\<lparr>state := state rng * 6364136223846793005 + inc' rng\<rparr>)"
  unfolding pcg32_random_2d_def Let_def rotate_expr_top5 by simp

lemma or_1_odd: "(w::uint64_t) AND 1 = 1 \<Longrightarrow> w OR 1 = w"
  by (metis or.commute or.left_idem or.idem  and.commute word_ao_absorbs(4) )

lemma odd_or_1: "(w::uint64_t) AND 1 = 1 \<longleftrightarrow> w OR 1 = w"
proof
  assume "w AND 1 = 1" then show "w OR 1 = w" by (rule or_1_odd)
next
  assume "w OR 1 = w"
  then have "w AND 1 = (w OR 1) AND 1" by simp
  also have "\<dots> = 1" by simp
  finally show "w AND 1 = 1" .
qed

lemma seed_inc_odd: "(push_bit 1 (q::uint64_t) OR 1) AND 1 = 1"
  by simp

lemma seed_inc_or: "(push_bit 1 (q::uint64_t) OR 1) OR 1 = push_bit 1 q OR 1"
  by (simp add: or.assoc)

subsection \<open>The generators that the seed generator can hold\<close>

lemma rng_state_reachable_odd:
  assumes "rng_state_reachable m"
  shows "inc' m AND 1 = 1"
  using assms
proof (induction rule: rng_state_reachable.induct)
  case initializer
  show ?case by (simp add: rng_state_initial_def)
next
  case (srandom_inc m initseq)
  show ?case by simp
next
  case (random m r m1)
  then show ?case by (auto simp: pcg32_random_eq)
next
  case (random_2d m r m1)
  then show ?case by (auto simp: pcg32_random_2d_eq)
qed simp_all

lemma odd_increment_selector:
  assumes "(i::uint64_t) AND 1 = 1"
  shows "push_bit 1 (drop_bit 1 i) OR 1 = i"
proof -
  have "i mod 2 = 1" using assms by (simp add: and_one_eq)
  moreover have "2 * (i div 2) + i mod 2 = i" by (rule mult_div_mod_eq)
  ultimately have "2 * (i div 2) + 1 = i" by simp
  moreover have "push_bit 1 (drop_bit 1 i) OR 1 = 2 * (i div 2) + 1"
    by (simp add: or_one_eq push_bit_eq_mult drop_bit_eq_div)
  ultimately show ?thesis by simp
qed

text \<open>The reachable generators are exactly those with an odd increment.\<close>

lemma rng_state_reachable_iff: "rng_state_reachable m \<longleftrightarrow> inc' m AND 1 = 1"
proof
  assume "rng_state_reachable m"
  then show "inc' m AND 1 = 1" by (rule rng_state_reachable_odd)
next
  assume odd: "inc' m AND 1 = 1"
  obtain s i where m: "m = \<lparr>state = s, inc' = i\<rparr>" by (cases m) simp
  have "rng_state_reachable (rng_state_initial\<lparr>inc' := push_bit 1 (drop_bit 1 i) OR 1\<rparr>)"
    by (intro rng_state_reachable.intros)
  moreover have "push_bit 1 (drop_bit 1 i) OR 1 = i"
    using odd by (intro odd_increment_selector) (simp add: m)
  ultimately have "rng_state_reachable (rng_state_initial\<lparr>inc' := i\<rparr>)"
    by (simp only:)
  then have "rng_state_reachable (rng_state_initial\<lparr>inc' := i\<rparr>\<lparr>state := 0\<rparr>)"
    by (rule rng_state_reachable.srandom_state)
  then have "rng_state_reachable (rng_state_initial\<lparr>inc' := i\<rparr>\<lparr>state := 0\<rparr>
      \<lparr>state := state (rng_state_initial\<lparr>inc' := i\<rparr>\<lparr>state := 0\<rparr>) + s\<rparr>)"
    by (rule rng_state_reachable.srandom_add)
  then show "rng_state_reachable m"
    by (simp add: rng_state_initial_def m)
qed

lemma pcg32_random_reachable:
  assumes "rng_state_reachable rng"
  shows "pcg32_random rng =
     Some (spec_output (state rng), rng\<lparr>state := spec_transition (inc' rng) (state rng)\<rparr>)"
    and "pcg32_random_2d rng =
     Some (spec_output (state rng), rng\<lparr>state := spec_transition (inc' rng) (state rng)\<rparr>)"
  using rng_state_reachable_odd [OF assms]
  by (simp_all add: pcg32_random_eq pcg32_random_2d_eq spec_transition_def or_1_odd)

lemma even_increment_unreachable:
  "\<not> rng_state_reachable \<lparr>state = 0, inc' = 2\<rparr>" "\<not> rng_state_reachable \<lparr>state = 0, inc' = 0\<rparr>"
  by (simp_all add: rng_state_reachable_iff)

subsection \<open>C1: one call of the generation routine\<close>

text \<open>
  C1. For every generator, \<open>pcg32_random_r\<close>, in each of its three copies, returns the
  rotated xorshift of the old state and sets the state to
  \<open>old * 6364136223846793005 + (inc | 1)\<close>. So does \<open>pcg32_random\<close> of the two
  seed\_generator.c files on every generator it can receive, that is on every value of
  the file-local \<open>rng_state\<close>: it adds \<open>inc\<close> as it is, and \<open>inc\<close> is odd there. The return
  expression is the rotate-right for every count below 32, and for the count 0 it is
  \<open>xorshifted\<close> itself; no shift by 32 is executed.
\<close>

theorem C1_next_u32:
  "pcg32_random_r rng =
     Some (spec_output (state rng), rng\<lparr>state := spec_transition (inc' rng) (state rng)\<rparr>)
   \<and> pcg32_random_r_1d rng =
     Some (spec_output (state rng), rng\<lparr>state := spec_transition (inc' rng) (state rng)\<rparr>)
   \<and> pcg32_random_r_2d rng =
     Some (spec_output (state rng), rng\<lparr>state := spec_transition (inc' rng) (state rng)\<rparr>)
   \<and> (rng_state_reachable rng \<longrightarrow>
        pcg32_random rng =
          Some (spec_output (state rng), rng\<lparr>state := spec_transition (inc' rng) (state rng)\<rparr>)
        \<and> pcg32_random_2d rng =
          Some (spec_output (state rng), rng\<lparr>state := spec_transition (inc' rng) (state rng)\<rparr>))
   \<and> (\<forall>xorshifted rot. unat rot < 32 \<longrightarrow>
          rotate_expr xorshifted rot = Some (word_rotr (unat rot) xorshifted))
   \<and> (\<forall>xorshifted. rotate_expr xorshifted 0 = Some xorshifted)"
proof (intro conjI allI impI)
  show "pcg32_random_r rng =
     Some (spec_output (state rng), rng\<lparr>state := spec_transition (inc' rng) (state rng)\<rparr>)"
    by (rule pcg32_random_r_eq)
  show "pcg32_random_r_1d rng =
     Some (spec_output (state rng), rng\<lparr>state := spec_transition (inc' rng) (state rng)\<rparr>)"
    by (rule pcg32_random_r_1d_eq)
  show "pcg32_random_r_2d rng =
     Some (spec_output (state rng), rng\<lparr>state := spec_transition (inc' rng) (state rng)\<rparr>)"
    by (rule pcg32_random_r_2d_eq)
  show "pcg32_random rng =
     Some (spec_output (state rng), rng\<lparr>state := spec_transition (inc' rng) (state rng)\<rparr>)"
    if "rng_state_reachable rng" using that by (rule pcg32_random_reachable(1))
  show "pcg32_random_2d rng =
     Some (spec_output (state rng), rng\<lparr>state := spec_transition (inc' rng) (state rng)\<rparr>)"
    if "rng_state_reachable rng" using that by (rule pcg32_random_reachable(2))
  show "rotate_expr xorshifted rot = Some (word_rotr (unat rot) xorshifted)"
    if "unat rot < 32" for xorshifted rot
    using that by (rule rotate_expr_rotr)
  show "rotate_expr xorshifted 0 = Some xorshifted" for xorshifted
    by (simp add: rotate_expr_def shr_u32_def shl_u32_def)
qed


theorem C1_next_u32_witness:
  "rng_state_reachable rng_state_initial
   \<and> pcg32_random rng_state_initial =
       Some (spec_output (state rng_state_initial),
             rng_state_initial\<lparr>state := spec_transition (inc' rng_state_initial)
                                             (state rng_state_initial)\<rparr>)
   \<and> pcg32_random_2d rng_state_initial =
       Some (spec_output (state rng_state_initial),
             rng_state_initial\<lparr>state := spec_transition (inc' rng_state_initial)
                                             (state rng_state_initial)\<rparr>)
   \<and> unat (31 :: uint32_t) < 32
   \<and> rotate_expr 1 31 = Some (word_rotr (unat (31 :: uint32_t)) 1)"
  using C1_next_u32 [of rng_state_initial] rng_state_reachable.initializer by simp

subsection \<open>C2: seeding\<close>

lemma pcg32_srandom_r_eq:
  "pcg32_srandom_r rng initstate initseq =
     Some \<lparr>state = spec_transition (push_bit 1 initseq OR 1)
                     (spec_transition (push_bit 1 initseq OR 1) 0 + initstate),
           inc' = push_bit 1 initseq OR 1\<rparr>"
  by (simp add: pcg32_srandom_r_def pcg32_random_r_eq Let_def)

lemma pcg32_srandom_r_1d_eq:
  "pcg32_srandom_r_1d rng initstate initseq =
     Some \<lparr>state = spec_transition (push_bit 1 initseq OR 1)
                     (spec_transition (push_bit 1 initseq OR 1) 0 + initstate),
           inc' = push_bit 1 initseq OR 1\<rparr>"
  by (simp add: pcg32_srandom_r_1d_def pcg32_random_r_1d_eq Let_def)

lemma pcg32_srandom_r_2d_eq:
  "pcg32_srandom_r_2d rng initstate initseq =
     Some \<lparr>state = spec_transition (push_bit 1 initseq OR 1)
                     (spec_transition (push_bit 1 initseq OR 1) 0 + initstate),
           inc' = push_bit 1 initseq OR 1\<rparr>"
  by (simp add: pcg32_srandom_r_2d_def pcg32_random_r_2d_eq Let_def)

lemma pcg32_srandom_eq:
  "pcg32_srandom rng initstate initseq =
     Some \<lparr>state = spec_transition (push_bit 1 initseq OR 1)
                     (spec_transition (push_bit 1 initseq OR 1) 0 + initstate),
           inc' = push_bit 1 initseq OR 1\<rparr>"
  by (simp add: pcg32_srandom_def pcg32_random_eq Let_def spec_transition_def seed_inc_or)

lemma pcg32_srandom_2d_eq:
  "pcg32_srandom_2d rng initstate initseq =
     Some \<lparr>state = spec_transition (push_bit 1 initseq OR 1)
                     (spec_transition (push_bit 1 initseq OR 1) 0 + initstate),
           inc' = push_bit 1 initseq OR 1\<rparr>"
  by (simp add: pcg32_srandom_2d_def pcg32_random_2d_eq Let_def spec_transition_def seed_inc_or)

lemma seeded_state_closed_form:
  "spec_transition (push_bit 1 q OR 1) (spec_transition (push_bit 1 q OR 1) 0 + x) =
     ((push_bit 1 q OR 1) + x) * 6364136223846793005 + (push_bit 1 q OR 1)"
  by (simp add: spec_transition_def seed_inc_or)

text \<open>
  C2. \<open>pcg32_srandom_r\<close> and \<open>pcg32_srandom\<close> leave the increment \<open>(initseq << 1) | 1\<close>
  and the state reached from 0 by one transition, the addition of \<open>initstate\<close> and one
  more transition, which is
  \<open>(((initseq << 1) | 1) + initstate) * 6364136223846793005 + ((initseq << 1) | 1)\<close>.
\<close>

theorem C2_seed:
  "pcg32_srandom_r rng initstate initseq =
     Some \<lparr>state = spec_transition (push_bit 1 initseq OR 1)
                     (spec_transition (push_bit 1 initseq OR 1) 0 + initstate),
           inc' = push_bit 1 initseq OR 1\<rparr>
   \<and> pcg32_srandom rng initstate initseq = pcg32_srandom_r rng initstate initseq
   \<and> spec_transition (push_bit 1 initseq OR 1)
         (spec_transition (push_bit 1 initseq OR 1) 0 + initstate) =
       ((push_bit 1 initseq OR 1) + initstate) * 6364136223846793005 + (push_bit 1 initseq OR 1)"
  by (simp only: pcg32_srandom_r_eq pcg32_srandom_eq seeded_state_closed_form simp_thms)

subsection \<open>C3: the reference outputs for the seed (42, 54)\<close>

lemma known_vectors_seed:
  "pcg32_srandom_r rng 42 54 = Some \<lparr>state = 1753877967969059832, inc' = 109\<rparr>"
  by (simp add: pcg32_srandom_r_eq spec_transition_def)

lemma known_vectors_draw1:
  "pcg32_random_r \<lparr>state = 1753877967969059832, inc' = 109\<rparr> =
     Some (0xa15c02b7, \<lparr>state = 3118741472915405573, inc' = 109\<rparr>)"
  by (simp add: pcg32_random_r_def rotate_expr_def shr_u32_def shl_u32_def Let_def)

lemma known_vectors_draw2:
  "pcg32_random_r \<lparr>state = 3118741472915405573, inc' = 109\<rparr> =
     Some (0x7b47f409, \<lparr>state = 10030406343644371790, inc' = 109\<rparr>)"
  by (simp add: pcg32_random_r_def rotate_expr_def shr_u32_def shl_u32_def Let_def)

lemma known_vectors_draw3:
  "pcg32_random_r \<lparr>state = 10030406343644371790, inc' = 109\<rparr> =
     Some (0xba1d3330, \<lparr>state = 17800363335834976035, inc' = 109\<rparr>)"
  by (simp add: pcg32_random_r_def rotate_expr_def shr_u32_def shl_u32_def Let_def)

lemma known_vectors_draw4:
  "pcg32_random_r \<lparr>state = 17800363335834976035, inc' = 109\<rparr> =
     Some (0x83d2f293, \<lparr>state = 16987470693695682196, inc' = 109\<rparr>)"
  by (simp add: pcg32_random_r_def rotate_expr_def shr_u32_def shl_u32_def Let_def)

lemma known_vectors_draw5:
  "pcg32_random_r \<lparr>state = 16987470693695682196, inc' = 109\<rparr> =
     Some (0xbfa4784b, \<lparr>state = 9440484487994590321, inc' = 109\<rparr>)"
  by (simp add: pcg32_random_r_def rotate_expr_def shr_u32_def shl_u32_def Let_def)

lemma known_vectors_draw6:
  "pcg32_random_r \<lparr>state = 9440484487994590321, inc' = 109\<rparr> =
     Some (0xcbed606e, \<lparr>state = 13742400798436595530, inc' = 109\<rparr>)"
  by (simp add: pcg32_random_r_def rotate_expr_def shr_u32_def shl_u32_def Let_def)

text \<open>
  C3. After \<open>pcg32_srandom_r\<close> with \<open>initstate = 42\<close> and \<open>initseq = 54\<close>, the first six
  results of \<open>pcg32_random_r\<close> are the reference outputs of PCG32, in order.
\<close>

theorem C3_known_vectors:
  "do {
     rng0 \<leftarrow> pcg32_srandom_r rng 42 54;
     (r1, rng1) \<leftarrow> pcg32_random_r rng0;
     (r2, rng2) \<leftarrow> pcg32_random_r rng1;
     (r3, rng3) \<leftarrow> pcg32_random_r rng2;
     (r4, rng4) \<leftarrow> pcg32_random_r rng3;
     (r5, rng5) \<leftarrow> pcg32_random_r rng4;
     (r6, rng6) \<leftarrow> pcg32_random_r rng5;
     Some [r1, r2, r3, r4, r5, r6]
   } = Some [0xa15c02b7, 0x7b47f409, 0xba1d3330, 0x83d2f293, 0xbfa4784b, 0xcbed606e]"
  by (simp add: known_vectors_seed known_vectors_draw1 known_vectors_draw2 known_vectors_draw3 known_vectors_draw4 known_vectors_draw5 known_vectors_draw6)

subsection \<open>C4: the increment is odd and never changes\<close>

lemma pcg32_random_r_times_inc:
  "\<exists>rng1. pcg32_random_r_times n rng = Some rng1 \<and> inc' rng1 = inc' rng"
proof (induction n arbitrary: rng)
  case 0
  show ?case by simp
next
  case (Suc n)
  from Suc [of "rng\<lparr>state := spec_transition (inc' rng) (state rng)\<rparr>"]
  show ?case by (simp add: pcg32_random_r_eq)
qed

text \<open>
  C4. After seeding with any \<open>x\<close> and \<open>y\<close> the increment is odd; a call of
  \<open>pcg32_random_r\<close> on any generator leaves the increment as it was, so after any number
  \<open>n\<close> of calls the seeded generator still has the same, odd increment.
\<close>

theorem C4_increment_odd_and_fixed:
  "(\<exists>rng0. pcg32_srandom_r rng x y = Some rng0 \<and> inc' rng0 AND 1 = 1
      \<and> (\<exists>rng1. pcg32_random_r_times n rng0 = Some rng1
            \<and> inc' rng1 = inc' rng0 \<and> inc' rng1 AND 1 = 1))
   \<and> (\<exists>r rng1. pcg32_random_r rng = Some (r, rng1) \<and> inc' rng1 = inc' rng)"
proof -
  obtain rng0 where s: "pcg32_srandom_r rng x y = Some rng0" "inc' rng0 = push_bit 1 y OR 1"
    by (simp add: pcg32_srandom_r_eq)
  obtain rng1 where t: "pcg32_random_r_times n rng0 = Some rng1" "inc' rng1 = inc' rng0"
    using pcg32_random_r_times_inc by blast
  show ?thesis using s t by (simp add: pcg32_random_r_eq)
qed

subsection \<open>C6: the copies of the generation routine\<close>

text \<open>Every function of the file takes a reachable generator to a reachable one.\<close>

lemma rng_state_reachable_calls:
  assumes "rng_state_reachable m"
  shows "pcg32_srandom m initstate initseq = Some m1 \<Longrightarrow> rng_state_reachable m1"
    and "seedgen_init m initstate initseq = Some m1 \<Longrightarrow> rng_state_reachable m1"
    and "generate_seed m = Some (r, m1) \<Longrightarrow> rng_state_reachable m1"
    and "pcg32_srandom_2d m initstate initseq = Some m1 \<Longrightarrow> rng_state_reachable m1"
    and "seedgen_init_2d m initstate initseq = Some m1 \<Longrightarrow> rng_state_reachable m1"
    and "generate_seed_2d m = Some (r, m1) \<Longrightarrow> rng_state_reachable m1"
  using assms
  by (auto simp: rng_state_reachable_iff pcg32_srandom_eq seedgen_init_def generate_seed_def
      pcg32_random_eq pcg32_srandom_2d_eq seedgen_init_2d_def generate_seed_2d_def
      pcg32_random_2d_eq)

text \<open>
  On a generator with an even increment, which \<open>rng_state\<close> never is, the two routines
  would part.
\<close>

lemma copies_differ_iff_even:
  "pcg32_random rng = pcg32_random_r rng \<longleftrightarrow> inc' rng AND 1 = 1"
proof -
  have "rng\<lparr>state := state rng * 6364136223846793005 + inc' rng\<rparr> =
        rng\<lparr>state := state rng * 6364136223846793005 + (inc' rng OR 1)\<rparr>
        \<longleftrightarrow> inc' rng OR 1 = inc' rng"
  proof
    assume "rng\<lparr>state := state rng * 6364136223846793005 + inc' rng\<rparr> =
        rng\<lparr>state := state rng * 6364136223846793005 + (inc' rng OR 1)\<rparr>"
    then have "state (rng\<lparr>state := state rng * 6364136223846793005 + inc' rng\<rparr>) =
        state (rng\<lparr>state := state rng * 6364136223846793005 + (inc' rng OR 1)\<rparr>)"
      by (rule arg_cong)
    then show "inc' rng OR 1 = inc' rng" by simp
  qed simp
  then show ?thesis
    by (simp add: pcg32_random_r_eq pcg32_random_eq spec_transition_def odd_or_1)
qed

text \<open>
  C6. The three copies of \<open>pcg32_random_r\<close> compute identical results on every generator,
  the two copies of \<open>pcg32_random\<close> too, and all five return the same 32-bit value. On
  every generator that \<open>pcg32_random\<close> can receive, that is on every value of the
  file-local \<open>rng_state\<close>, all five also produce the same successor state.
\<close>

theorem C6_copies_agree:
  "pcg32_random_r_1d rng = pcg32_random_r rng
   \<and> pcg32_random_r_2d rng = pcg32_random_r rng
   \<and> pcg32_random_2d rng = pcg32_random rng
   \<and> map_option fst (pcg32_random rng) = map_option fst (pcg32_random_r rng)
   \<and> (rng_state_reachable rng \<longrightarrow>
        pcg32_random rng = pcg32_random_r rng \<and> pcg32_random_2d rng = pcg32_random_r rng)"
proof (intro conjI impI)
  show "pcg32_random_r_1d rng = pcg32_random_r rng"
    by (simp only: pcg32_random_r_eq pcg32_random_r_1d_eq)
  show "pcg32_random_r_2d rng = pcg32_random_r rng"
    by (simp only: pcg32_random_r_eq pcg32_random_r_2d_eq)
  show "pcg32_random_2d rng = pcg32_random rng"
    by (simp only: pcg32_random_eq pcg32_random_2d_eq)
  show "map_option fst (pcg32_random rng) = map_option fst (pcg32_random_r rng)"
    by (simp add: pcg32_random_eq pcg32_random_r_eq)
  show "pcg32_random rng = pcg32_random_r rng" if "rng_state_reachable rng"
    by (simp only: pcg32_random_reachable(1) [OF that] pcg32_random_r_eq)
  show "pcg32_random_2d rng = pcg32_random_r rng" if "rng_state_reachable rng"
    by (simp only: pcg32_random_reachable(2) [OF that] pcg32_random_r_eq)
qed


theorem C6_copies_agree_witness:
  "rng_state_reachable rng_state_initial
   \<and> pcg32_random rng_state_initial = pcg32_random_r rng_state_initial
   \<and> pcg32_random_2d rng_state_initial = pcg32_random_r rng_state_initial"
  using C6_copies_agree [of rng_state_initial] rng_state_reachable.initializer by simp

subsection \<open>C7: two sequence selectors for one initial state\<close>

lemma seed_inc_arith: "push_bit 1 (q::uint64_t) OR 1 = 2 * q + 1"
  by (simp add: or_one_eq push_bit_eq_mult)

lemma seeded_state_affine:
  "spec_transition (push_bit 1 q OR 1) (spec_transition (push_bit 1 q OR 1) 0 + x) =
     3182068111923396503 * (4 * q) + (x * 6364136223846793005 + 6364136223846793006)"
proof -
  have "spec_transition (push_bit 1 q OR 1) (spec_transition (push_bit 1 q OR 1) 0 + x) =
        ((push_bit 1 q OR 1) + x) * 6364136223846793005 + (push_bit 1 q OR 1)"
    by (rule seeded_state_closed_form)
  also have "\<dots> = ((2 * q + 1) + x) * 6364136223846793005 + (2 * q + 1)"
    by (simp only: seed_inc_arith)
  also have "\<dots> =
      3182068111923396503 * (4 * q) + (x * 6364136223846793005 + 6364136223846793006)"
    by (simp add: algebra_simps)
  finally show ?thesis .
qed

lemma odd_factor_cancel:
  "3182068111923396503 * (a::uint64_t) = 3182068111923396503 * b \<longleftrightarrow> a = b"
proof
  assume e: "3182068111923396503 * a = 3182068111923396503 * b"
  have inv: "(13130172722378420263 * 3182068111923396503 :: uint64_t) = 1" by simp
  have "a = (13130172722378420263 * 3182068111923396503) * a" by (simp only: inv mult_1)
  also have "\<dots> = 13130172722378420263 * (3182068111923396503 * a)" by (simp only: mult.assoc)
  also have "\<dots> = 13130172722378420263 * (3182068111923396503 * b)" by (simp only: e)
  also have "\<dots> = (13130172722378420263 * 3182068111923396503) * b" by (simp only: mult.assoc)
  also have "\<dots> = b" by (simp only: inv mult_1)
  finally show "a = b" .
qed simp

text \<open>
  C7 as stated fails: seeded with \<open>initstate = 12345\<close>, the sequence selectors 14 and 6201
  give generators whose first results are both 352877694.
\<close>

theorem C7_counterexample:
  "(14 :: uint64_t) \<noteq> 6201
   \<and> do { g \<leftarrow> pcg32_srandom_r \<lparr>state = 0, inc' = 0\<rparr> 12345 14;
          (r, _) \<leftarrow> pcg32_random_r g; Some r } = Some 352877694
   \<and> do { g \<leftarrow> pcg32_srandom_r \<lparr>state = 0, inc' = 0\<rparr> 12345 6201;
          (r, _) \<leftarrow> pcg32_random_r g; Some r } = Some 352877694"
proof -
  have a: "pcg32_srandom_r \<lparr>state = 0, inc' = 0\<rparr> 12345 14 =
      Some \<lparr>state = 671183214140795195, inc' = 29\<rparr>"
    by (simp add: pcg32_srandom_r_eq spec_transition_def)
  have b: "pcg32_srandom_r \<lparr>state = 0, inc' = 0\<rparr> 12345 6201 =
      Some \<lparr>state = 1342366428281602735, inc' = 12403\<rparr>"
    by (simp add: pcg32_srandom_r_eq spec_transition_def)
  have c: "map_option fst (pcg32_random_r \<lparr>state = 671183214140795195, inc' = 29\<rparr>) =
      Some 352877694"
    by (simp add: pcg32_random_r_def rotate_expr_def shr_u32_def shl_u32_def Let_def)
  have d: "map_option fst (pcg32_random_r \<lparr>state = 1342366428281602735, inc' = 12403\<rparr>) =
      Some 352877694"
    by (simp add: pcg32_random_r_def rotate_expr_def shr_u32_def shl_u32_def Let_def)
  from c d show ?thesis unfolding a b by (auto simp: map_option_case split: option.splits prod.splits)
qed

text \<open>
  C7, as amended. For every \<open>initstate\<close> and every two sequence selectors, the two seeded
  generators have the same increment exactly when the selectors agree in their low 63
  bits (\<open>initseq << 1\<close> drops the top bit), and the same state exactly when the selectors
  agree in their low 62 bits. When the selectors agree in their low 62 bits the first
  results are equal. Nothing is promised about the first results otherwise.
\<close>

theorem C7_streams:
  "\<exists>g1 g2. pcg32_srandom_r rng x y1 = Some g1 \<and> pcg32_srandom_r rng x y2 = Some g2
     \<and> (inc' g1 = inc' g2 \<longleftrightarrow> push_bit 1 y1 = push_bit 1 y2)
     \<and> (state g1 = state g2 \<longleftrightarrow> push_bit 2 y1 = push_bit 2 y2)
     \<and> (push_bit 2 y1 = push_bit 2 y2 \<longrightarrow>
          map_option fst (pcg32_random_r g1) = map_option fst (pcg32_random_r g2))"
proof -
  define s1 where "s1 = spec_transition (push_bit 1 y1 OR 1)
                          (spec_transition (push_bit 1 y1 OR 1) 0 + x)"
  define s2 where "s2 = spec_transition (push_bit 1 y2 OR 1)
                          (spec_transition (push_bit 1 y2 OR 1) 0 + x)"
  have g1: "pcg32_srandom_r rng x y1 = Some \<lparr>state = s1, inc' = push_bit 1 y1 OR 1\<rparr>"
    unfolding s1_def by (rule pcg32_srandom_r_eq)
  have g2: "pcg32_srandom_r rng x y2 = Some \<lparr>state = s2, inc' = push_bit 1 y2 OR 1\<rparr>"
    unfolding s2_def by (rule pcg32_srandom_r_eq)
  have pb: "push_bit 1 y = 2 * y" for y :: uint64_t
    by (simp add: push_bit_eq_mult)
  have "(push_bit 1 y1 OR 1 = push_bit 1 y2 OR 1) = (2 * y1 + 1 = 2 * y2 + 1)"
    by (simp only: seed_inc_arith)
  also have "\<dots> = (2 * y1 = 2 * y2)" by simp
  also have "\<dots> = (push_bit 1 y1 = push_bit 1 y2)" by (simp only: pb)
  finally have incs:
    "(push_bit 1 y1 OR 1 = push_bit 1 y2 OR 1) = (push_bit 1 y1 = push_bit 1 y2)" .
  have "(s1 = s2) = (4 * y1 = 4 * y2)"
    unfolding s1_def s2_def seeded_state_affine by (simp only: add_right_cancel odd_factor_cancel)
  then have states: "(s1 = s2) = (push_bit 2 y1 = push_bit 2 y2)"
    by (simp add: push_bit_eq_mult mult.commute)
  have draws: "map_option fst (pcg32_random_r \<lparr>state = s1, inc' = push_bit 1 y1 OR 1\<rparr>) =
               map_option fst (pcg32_random_r \<lparr>state = s2, inc' = push_bit 1 y2 OR 1\<rparr>)"
    if "push_bit 2 y1 = push_bit 2 y2"
    using that states by (simp add: pcg32_random_r_eq)
  show ?thesis
    unfolding g1 g2 using incs states draws by simp
qed

theorem C7_streams_witness:
  "\<exists>g1 g2. pcg32_srandom_r \<lparr>state = 0, inc' = 0\<rparr> 42 0 = Some g1
     \<and> pcg32_srandom_r \<lparr>state = 0, inc' = 0\<rparr> 42 0x4000000000000000 = Some g2
     \<and> push_bit 2 (0 :: uint64_t) = push_bit 2 (0x4000000000000000 :: uint64_t)
     \<and> inc' g1 \<noteq> inc' g2
     \<and> state g1 = state g2
     \<and> map_option fst (pcg32_random_r g1) = map_option fst (pcg32_random_r g2)"
  using C7_streams [of "\<lparr>state = 0, inc' = 0\<rparr>" 42 0 "0x4000000000000000"]
  by (auto simp: push_bit_eq_mult)

section \<open>The seed hierarchy\<close>

text \<open>
  The seed pair of one run, as the three main programs draw it:
  \<^verbatim>\<open>seed1 = generate_seed(); seed2 = generate_seed();\<close>
\<close>

definition derive_run_seeds ::
  "pcg32_random_t \<Rightarrow> ((uint32_t \<times> uint32_t) \<times> pcg32_random_t) option" where
  "derive_run_seeds rng_state =
     do {
       (seed1, rng1) \<leftarrow> generate_seed rng_state;
       (seed2, rng2) \<leftarrow> generate_seed rng1;
       Some ((seed1, seed2), rng2)
     }"

text \<open>The master generator after \<open>n\<close> calls, and the pair that call number \<open>n\<close> (from 0) returns.\<close>

fun master_after :: "nat \<Rightarrow> pcg32_random_t \<Rightarrow> pcg32_random_t option" where
  "master_after 0 rng_state = Some rng_state"
| "master_after (Suc n) rng_state =
     do { (_, rng1) \<leftarrow> derive_run_seeds rng_state; master_after n rng1 }"

definition run_seeds :: "nat \<Rightarrow> pcg32_random_t \<Rightarrow> (uint32_t \<times> uint32_t) option" where
  "run_seeds n rng_state =
     do {
       rng1 \<leftarrow> master_after n rng_state;
       (seeds, _) \<leftarrow> derive_run_seeds rng1;
       Some seeds
     }"

text \<open>
  The map \<open>s \<mapsto> a * s + c\<close> on 64-bit words applied \<open>n\<close> times is \<open>s \<mapsto> A * s + C\<close>;
  \<open>lcg_jump a c n\<close> computes \<open>(A, C)\<close> by repeated squaring, on numbers reduced modulo
  \<open>2 ^ 64\<close>.
\<close>

function lcg_jump :: "nat \<Rightarrow> nat \<Rightarrow> nat \<Rightarrow> nat \<times> nat" where
  "lcg_jump a c n =
     (if n = 0 then (1, 0)
      else let (A, C) = lcg_jump ((a * a) mod 2 ^ 64) (((a + 1) * c) mod 2 ^ 64) (n div 2)
           in if even n then (A, C) else ((A * a) mod 2 ^ 64, (A * c + C) mod 2 ^ 64))"
  by pat_completeness auto
termination
  by (relation "measure (\<lambda>(a, c, n). n)") auto

declare lcg_jump.simps [simp del]

subsection \<open>Jumping ahead in the master generator\<close>

lemma word64_of_nat_mod: "(word_of_nat (n mod 18446744073709551616) :: uint64_t) = word_of_nat n"
  by (simp add: word_of_nat_eq_iff take_bit_eq_mod)

lemma lcg_jump_correct:
  "((\<lambda>s::uint64_t. s * word_of_nat a + word_of_nat c) ^^ n) s =
     word_of_nat (fst (lcg_jump a c n)) * s + word_of_nat (snd (lcg_jump a c n))"
proof (induction a c n arbitrary: s rule: lcg_jump.induct)
  case (1 a c n)
  let ?f = "\<lambda>s::uint64_t. s * word_of_nat a + word_of_nat c"
  let ?g = "\<lambda>s::uint64_t. s * word_of_nat ((a * a) mod 2 ^ 64)
                    + word_of_nat (((a + 1) * c) mod 2 ^ 64)"
  show ?case
  proof (cases "n = 0")
    case True
    then show ?thesis by (simp add: lcg_jump.simps)
  next
    case False
    obtain A C where AC: "lcg_jump ((a * a) mod 2 ^ 64) (((a + 1) * c) mod 2 ^ 64) (n div 2) = (A, C)"
      by (cases "lcg_jump ((a * a) mod 2 ^ 64) (((a + 1) * c) mod 2 ^ 64) (n div 2)")
    have g: "?g = ?f ^^ 2"
    proof (rule ext)
      fix t :: uint64_t
      have "(?f ^^ 2) t = ?f (?f t)" by (simp add: numeral_2_eq_2)
      also have "\<dots> = ?g t" by (simp add: word64_of_nat_mod algebra_simps)
      finally show "?g t = (?f ^^ 2) t" by (rule sym)
    qed
    have half: "(?f ^^ (2 * (n div 2))) t = word_of_nat A * t + word_of_nat C" for t
    proof -
      have "(?f ^^ (2 * (n div 2))) t = ((?f ^^ 2) ^^ (n div 2)) t"
        by (simp only: funpow_mult)
      also have "\<dots> = (?g ^^ (n div 2)) t" by (simp only: g)
      also have "\<dots> = word_of_nat A * t + word_of_nat C"
        using "1.IH" [OF False, of t] by (simp only: AC fst_conv snd_conv)
      finally show ?thesis .
    qed
    have val: "lcg_jump a c n =
        (if even n then (A, C) else ((A * a) mod 2 ^ 64, (A * c + C) mod 2 ^ 64))"
      using False AC by (subst lcg_jump.simps) simp
    show ?thesis
    proof (cases "even n")
      case True
      then have "2 * (n div 2) = n" by simp
      with half [of s] show ?thesis
        using True by (simp add: val)
    next
      case odd: False
      then have n: "n = Suc (2 * (n div 2))" by simp
      have "(?f ^^ n) s = (?f ^^ (2 * (n div 2))) (?f s)"
        by (subst n) (simp only: funpow_Suc_right o_apply)
      also have "\<dots> = word_of_nat A * (?f s) + word_of_nat C" by (rule half)
      also have "\<dots> = word_of_nat ((A * a) mod 2 ^ 64) * s + word_of_nat ((A * c + C) mod 2 ^ 64)"
        by (simp add: word64_of_nat_mod algebra_simps)
      finally show ?thesis
        using odd by (simp add: val)
    qed
  qed
qed

lemma generate_seed_eq:
  "generate_seed m =
     Some (spec_output (state m), m\<lparr>state := state m * 6364136223846793005 + inc' m\<rparr>)"
  unfolding generate_seed_def by (rule pcg32_random_eq)

lemma derive_run_seeds_eq:
  "derive_run_seeds m =
     Some ((spec_output (state m), spec_output (state m * 6364136223846793005 + inc' m)),
           m\<lparr>state := (state m * 6364136223846793005 + inc' m) * 6364136223846793005 + inc' m\<rparr>)"
  unfolding derive_run_seeds_def by (simp add: generate_seed_eq)

lemma funpow_double_Suc: "(f ^^ (2 * Suc n)) x = (f ^^ (2 * n)) (f (f x))"
  by (simp add: funpow_swap1)

lemma master_after_eq:
  "master_after n m =
     Some (m\<lparr>state := ((\<lambda>s. s * 6364136223846793005 + inc' m) ^^ (2 * n)) (state m)\<rparr>)"
proof (induction n arbitrary: m)
  case 0
  show ?case by simp
next
  case (Suc n)
  define f where "f = (\<lambda>s. s * 6364136223846793005 + inc' m)"
  have d: "derive_run_seeds m = Some ((spec_output (state m), spec_output (f (state m))),
      m\<lparr>state := f (f (state m))\<rparr>)"
    unfolding f_def by (rule derive_run_seeds_eq)
  have "master_after (Suc n) m = master_after n (m\<lparr>state := f (f (state m))\<rparr>)"
    by (simp add: d)
  also have "\<dots> = Some (m\<lparr>state := (f ^^ (2 * n)) (f (f (state m)))\<rparr>)"
    by (simp add: Suc.IH f_def)
  also have "(f ^^ (2 * n)) (f (f (state m))) = (f ^^ (2 * Suc n)) (state m)"
    by (rule funpow_double_Suc [symmetric])
  finally show ?case unfolding f_def .
qed

lemma master_after_jump:
  assumes "lcg_jump 6364136223846793005 c (2 * n) = (A, C)"
  shows "master_after n \<lparr>state = s, inc' = word_of_nat c\<rparr> =
           Some \<lparr>state = word_of_nat A * s + word_of_nat C, inc' = word_of_nat c\<rparr>"
proof -
  have "((\<lambda>s::uint64_t. s * word_of_nat 6364136223846793005 + word_of_nat c) ^^ (2 * n)) s =
      word_of_nat A * s + word_of_nat C"
    using lcg_jump_correct [where a = 6364136223846793005 and c = c and n = "2 * n" and s = s]
    by (simp only: assms fst_conv snd_conv)
  then show ?thesis
    by (simp add: master_after_eq)
qed

subsection \<open>The period of the state transition\<close>

lemma geo_sum_add:
  "(\<Sum>k<n + m. a ^ k) = (\<Sum>k<n. a ^ k) + a ^ n * (\<Sum>k<m. (a::nat) ^ k)"
  by (induction m) (simp_all add: algebra_simps power_add)

lemma geo_sum_double:
  "(\<Sum>k<2 * n. a ^ k) = (1 + a ^ n) * (\<Sum>k<n. (a::nat) ^ k)"
proof -
  have "2 * n = n + n" by simp
  then have "(\<Sum>k<2 * n. a ^ k) = (\<Sum>k<n + n. a ^ k)" by (simp only:)
  also have "\<dots> = (\<Sum>k<n. a ^ k) + a ^ n * (\<Sum>k<n. a ^ k)" by (rule geo_sum_add)
  also have "\<dots> = (1 + a ^ n) * (\<Sum>k<n. a ^ k)" by (simp add: algebra_simps)
  finally show ?thesis .
qed

lemma geo_sum_odd:
  assumes "odd (a::nat)" "odd n"
  shows "odd (\<Sum>k<n. a ^ k)"
proof -
  have "even (\<Sum>k<n. a ^ k) = even n" for n
    using assms(1) by (induction n) simp_all
  with assms(2) show ?thesis by simp
qed

lemma one_plus_power_mod4:
  assumes "(a::nat) mod 4 = 1"
  shows "\<exists>q. 1 + a ^ n = 2 * q \<and> odd q"
proof -
  have "a ^ n mod 4 = 1"
  proof (induction n)
    case 0 show ?case by simp
  next
    case (Suc n)
    have "a ^ Suc n mod 4 = ((a mod 4) * (a ^ n mod 4)) mod 4"
      by (simp add: mod_mult_eq)
    then show ?case using assms Suc by simp
  qed
  then have "(1 + a ^ n) mod 4 = 2" by presburger
  then obtain r where r: "1 + a ^ n = 4 * r + 2"
    by (metis mod_div_mult_eq mult.commute add.commute)
  then have "1 + a ^ n = 2 * (2 * r + 1)" by simp
  then show ?thesis by (intro exI [of _ "2 * r + 1"]) simp
qed

lemma geo_sum_two_power_dvd:
  assumes a: "(a::nat) mod 4 = 1"
  shows "2 ^ k dvd (\<Sum>i<n. a ^ i) \<longleftrightarrow> 2 ^ k dvd n"
proof (induction n arbitrary: k rule: less_induct)
  case (less n)
  have odd_a: "odd a" using a by presburger
  show ?case
  proof (cases "k = 0 \<or> n = 0")
    case True
    then show ?thesis by auto
  next
    case False
    then obtain k' where k: "k = Suc k'" and n0: "0 < n" by (cases k) auto
    show ?thesis
    proof (cases "even n")
      case True
      then obtain m where m: "n = 2 * m" by (auto elim: evenE)
      with n0 have mn: "m < n" by simp
      obtain q where q: "1 + a ^ m = 2 * q" "odd q"
        using one_plus_power_mod4 [OF a] by blast
      have "(\<Sum>i<n. a ^ i) = 2 * (q * (\<Sum>i<m. a ^ i))"
        unfolding m geo_sum_double q(1) by simp
      then have "2 ^ k dvd (\<Sum>i<n. a ^ i) \<longleftrightarrow> 2 ^ k' dvd q * (\<Sum>i<m. a ^ i)"
        by (simp add: k)
      also have "\<dots> \<longleftrightarrow> 2 ^ k' dvd (\<Sum>i<m. a ^ i)"
      proof -
        have "coprime (2 ^ k') q" using q(2) by simp
        then show ?thesis by (simp add: coprime_dvd_mult_right_iff)
      qed
      also have "\<dots> \<longleftrightarrow> 2 ^ k' dvd m" by (rule less.IH [OF mn])
      also have "\<dots> \<longleftrightarrow> 2 ^ k dvd n" by (simp add: k m)
      finally show ?thesis .
    next
      case False
      then have "odd (\<Sum>i<n. a ^ i)" by (rule geo_sum_odd [OF odd_a])
      then have "\<not> 2 ^ k dvd (\<Sum>i<n. a ^ i)" by (auto simp: k)
      moreover have "\<not> 2 ^ k dvd n" using False by (auto simp: k)
      ultimately show ?thesis by simp
    qed
  qed
qed

lemma odd_word_and_1: "(w::uint64_t) AND 1 = 1 \<longleftrightarrow> odd w"
  by (simp add: and_one_eq mod_2_eq_odd)

lemma odd_unat: "odd (w::uint64_t) \<Longrightarrow> odd (unat w)"
  by (simp add: bit_unsigned_iff flip: bit_0)

lemma odd_word_cancel:
  assumes "odd (u::uint64_t)" "x * u = 0"
  shows "x = 0"
proof -
  have "unat (x * u) = 0" using assms(2) by simp
  then have "(unat x * unat u) mod 2 ^ 64 = 0"
    by (simp add: unat_word_ariths)
  then have "2 ^ 64 dvd unat x * unat u" by (simp add: mod_eq_0_iff_dvd)
  moreover have "coprime (2 ^ 64 :: nat) (unat u)"
    using odd_unat [OF assms(1)] 
    by (simp only: coprime_power_left_iff coprime_left_2_iff_odd simp_thms)
  ultimately have "2 ^ 64 dvd unat x"
    by (simp add: coprime_dvd_mult_left_iff)
  moreover have "unat x < 2 ^ 64" using unsigned_less [of x] by simp
  ultimately have "unat x = 0" by (meson dvd_imp_le not_le zero_less_iff_neq_zero neq0_conv nat_dvd_not_less)
  then show ?thesis by (simp add: unat_eq_0)
qed

lemma lcg_funpow_closed:
  "((\<lambda>s::uint64_t. s * a + c) ^^ d) s = s * a ^ d + c * (\<Sum>k<d. a ^ k)"
proof (induction d arbitrary: s)
  case 0
  show ?case by simp
next
  case (Suc d)
  have "((\<lambda>s. s * a + c) ^^ Suc d) s = ((\<lambda>s. s * a + c) ^^ d) (s * a + c)"
    by (simp only: funpow_Suc_right o_apply)
  also have "\<dots> = (s * a + c) * a ^ d + c * (\<Sum>k<d. a ^ k)" by (rule Suc.IH)
  also have "\<dots> = s * a ^ Suc d + c * (\<Sum>k<Suc d. a ^ k)"
    by (simp add: algebra_simps)
  finally show ?case .
qed

lemma lcg_fixed_point_period:
  assumes c: "odd (c::uint64_t)"
    and fp: "((\<lambda>s::uint64_t. s * 6364136223846793005 + c) ^^ d) s = s"
  shows "2 ^ 64 dvd d"
proof -
  let ?a = "6364136223846793005 :: uint64_t"
  let ?S = "\<Sum>k<d. ?a ^ k"
  have "s * ?a ^ d + c * ?S = s"
    using fp by (simp only: lcg_funpow_closed)
  then have "s * (?a ^ d - 1) + c * ?S = 0"
    by (simp add: algebra_simps)
  then have "s * ((?a - 1) * ?S) + c * ?S = 0"
    by (simp only: power_diff_1_eq)
  then have "?S * (s * (?a - 1) + c) = 0"
    by (simp add: algebra_simps)
  moreover have "odd (s * (?a - 1) + c)"
    using c by simp
  ultimately have "?S = 0" by (rule odd_word_cancel [rotated])
  moreover have "?S = word_of_nat (\<Sum>k<d. 6364136223846793005 ^ k)"
    by simp
  ultimately have "2 ^ 64 dvd (\<Sum>k<d. (6364136223846793005::nat) ^ k)"
    by (simp only: word_of_nat_eq_0_iff) simp
  moreover have "(6364136223846793005::nat) mod 4 = 1" by simp
  ultimately show ?thesis
    by (simp only: geo_sum_two_power_dvd)
qed

lemma master_states_distinct:
  assumes oddinc: "inc' m AND 1 = 1" and i: "i < 2 ^ 63" and j: "j < 2 ^ 63" and lt: "i < j"
  shows "((\<lambda>s. s * 6364136223846793005 + inc' m) ^^ (2 * i)) (state m) \<noteq>
         ((\<lambda>s. s * 6364136223846793005 + inc' m) ^^ (2 * j)) (state m)"
proof
  let ?f = "\<lambda>s. s * 6364136223846793005 + inc' m"
  assume eq: "(?f ^^ (2 * i)) (state m) = (?f ^^ (2 * j)) (state m)"
  have "2 * j = 2 * (j - i) + 2 * i" using lt by simp
  then have "(?f ^^ (2 * j)) (state m) = (?f ^^ (2 * (j - i))) ((?f ^^ (2 * i)) (state m))"
    by (simp only: funpow_add o_apply)
  with eq have "(?f ^^ (2 * (j - i))) ((?f ^^ (2 * i)) (state m)) = (?f ^^ (2 * i)) (state m)"
    by simp
  moreover have "odd (inc' m)" using oddinc by (simp add: odd_word_and_1)
  ultimately have "2 ^ 64 dvd 2 * (j - i)"
    by (rule lcg_fixed_point_period [rotated])
  moreover have "0 < 2 * (j - i)" using lt by simp
  moreover have "2 * (j - i) < 2 ^ 64" using j by simp
  ultimately show False by (meson dvd_imp_le not_le)
qed


subsection \<open>C8: repeated seed pairs\<close>

lemma default_master:
  "seedgen_init rng_state_initial 12345 67890 =
     Some \<lparr>state = 10079894750844561963, inc' = 135781\<rparr>"
  by (simp add: seedgen_init_def pcg32_srandom_eq spec_transition_def)

lemma repeat_jump_i:
  "lcg_jump 6364136223846793005 135781 (2 * 546307440837425334) =
     (3427106938554965681, 2341578572656113940)"
  by (simp add: lcg_jump.simps)

lemma repeat_jump_j:
  "lcg_jump 6364136223846793005 135781 (2 * 6008642156453677016) =
     (1999489538110552257, 3634426770841001168)"
  by (simp add: lcg_jump.simps)

lemma repeat_master_i:
  "master_after 546307440837425334 \<lparr>state = 10079894750844561963, inc' = 135781\<rparr> =
     Some \<lparr>state = 10079894750753745615, inc' = 135781\<rparr>"
  using master_after_jump [OF repeat_jump_i, of 10079894750844561963] by simp

lemma repeat_master_j:
  "master_after 6008642156453677016 \<lparr>state = 10079894750844561963, inc' = 135781\<rparr> =
     Some \<lparr>state = 10079894750753967931, inc' = 135781\<rparr>"
  using master_after_jump [OF repeat_jump_j, of 10079894750844561963] by simp

lemma repeat_pair_i:
  "map_option fst (derive_run_seeds \<lparr>state = 10079894750753745615, inc' = 135781\<rparr>) =
     Some (2187804205, 272309191)"
  by (simp add: derive_run_seeds_def generate_seed_def pcg32_random_def rotate_expr_def
      shr_u32_def shl_u32_def Let_def)

lemma repeat_pair_j:
  "map_option fst (derive_run_seeds \<lparr>state = 10079894750753967931, inc' = 135781\<rparr>) =
     Some (2187804205, 272309191)"
  by (simp add: derive_run_seeds_def generate_seed_def pcg32_random_def rotate_expr_def
      shr_u32_def shl_u32_def Let_def)

lemma run_seeds_alt:
  "run_seeds n m = Option.bind (master_after n m) (\<lambda>m1. map_option fst (derive_run_seeds m1))"
  by (simp add: run_seeds_def map_option_case split: option.splits prod.splits bind_splits)


text \<open>
  C8 as stated fails. With the master seeded as the programs seed it,
  \<open>seedgen_init(12345, 67890)\<close>, the calls number 546307440837425334 and
  6008642156453677016 (counted from 0, both below \<open>2 ^ 63\<close>) return the same pair
  (2187804205, 272309191): the two master states differ in their low 27 bits only, which
  the first output does not read, and the second outputs coincide.
\<close>

theorem C8_counterexample:
  "seedgen_init rng_state_initial 12345 67890 =
     Some \<lparr>state = 10079894750844561963, inc' = 135781\<rparr>
   \<and> run_seeds 546307440837425334 \<lparr>state = 10079894750844561963, inc' = 135781\<rparr> =
       Some (2187804205, 272309191)
   \<and> run_seeds 6008642156453677016 \<lparr>state = 10079894750844561963, inc' = 135781\<rparr> =
       Some (2187804205, 272309191)
   \<and> (546307440837425334 :: nat) < 2 ^ 63
   \<and> (6008642156453677016 :: nat) < 2 ^ 63"
  by (simp add: default_master run_seeds_alt repeat_master_i repeat_master_j repeat_pair_i
      repeat_pair_j)

text \<open>
  C8, as amended. For every master seeding, the master states before two different calls
  among the first \<open>2 ^ 63\<close> are different, and the pair a call returns is the output of
  that state and of its successor. The pairs themselves can repeat.
\<close>

theorem C8_master_states_never_repeat:
  "\<exists>m. seedgen_init rng x y = Some m
     \<and> (\<forall>i j. i < 2 ^ 63 \<longrightarrow> j < 2 ^ 63 \<longrightarrow> i \<noteq> j \<longrightarrow>
          (\<exists>mi mj. master_after i m = Some mi \<and> master_after j m = Some mj
             \<and> state mi \<noteq> state mj
             \<and> run_seeds i m =
                 Some (spec_output (state mi),
                       spec_output (state mi * 6364136223846793005 + inc' mi))
             \<and> run_seeds j m =
                 Some (spec_output (state mj),
                       spec_output (state mj * 6364136223846793005 + inc' mj))))"
proof -
  define m where "m = \<lparr>state = spec_transition (push_bit 1 y OR 1)
                           (spec_transition (push_bit 1 y OR 1) 0 + x),
                       inc' = push_bit 1 y OR 1\<rparr>"
  have seeded: "seedgen_init rng x y = Some m"
    unfolding m_def seedgen_init_def by (rule pcg32_srandom_eq)
  have oddinc: "inc' m AND 1 = 1" by (simp add: m_def)
  have distinct: "((\<lambda>s. s * 6364136223846793005 + inc' m) ^^ (2 * i)) (state m) \<noteq>
         ((\<lambda>s. s * 6364136223846793005 + inc' m) ^^ (2 * j)) (state m)"
    if "i < 2 ^ 63" "j < 2 ^ 63" "i \<noteq> j" for i j :: nat
  proof (cases "i < j")
    case True
    with that show ?thesis by (intro master_states_distinct [OF oddinc])
  next
    case False
    with that have "j < i" by simp
    with that show ?thesis
      using master_states_distinct [OF oddinc, of j i] by simp
  qed
  show ?thesis
    using seeded distinct
    by (simp add: master_after_eq run_seeds_def derive_run_seeds_eq del: funpow.simps)
qed

theorem C8_master_states_never_repeat_witness:
  "\<exists>m. seedgen_init rng_state_initial 12345 67890 = Some m
     \<and> (0 :: nat) < 2 ^ 63 \<and> (1 :: nat) < 2 ^ 63 \<and> (0 :: nat) \<noteq> 1
     \<and> (\<exists>mi mj. master_after 0 m = Some mi \<and> master_after 1 m = Some mj
           \<and> state mi \<noteq> state mj
           \<and> run_seeds 0 m =
               Some (spec_output (state mi),
                     spec_output (state mi * 6364136223846793005 + inc' mi))
           \<and> run_seeds 1 m =
               Some (spec_output (state mj),
                     spec_output (state mj * 6364136223846793005 + inc' mj)))"
proof -
  from C8_master_states_never_repeat [of rng_state_initial 12345 67890]
  obtain m where m: "seedgen_init rng_state_initial 12345 67890 = Some m"
    and all: "\<forall>i j. i < 2 ^ 63 \<longrightarrow> j < 2 ^ 63 \<longrightarrow> i \<noteq> j \<longrightarrow>
          (\<exists>mi mj. master_after i m = Some mi \<and> master_after j m = Some mj
             \<and> state mi \<noteq> state mj
             \<and> run_seeds i m =
                 Some (spec_output (state mi),
                       spec_output (state mi * 6364136223846793005 + inc' mi))
             \<and> run_seeds j m =
                 Some (spec_output (state mj),
                       spec_output (state mj * 6364136223846793005 + inc' mj)))"
    by blast
  have "(0 :: nat) < 2 ^ 63" "(1 :: nat) < 2 ^ 63" "(0 :: nat) \<noteq> 1" by simp_all
  with all have "\<exists>mi mj. master_after 0 m = Some mi \<and> master_after 1 m = Some mj
           \<and> state mi \<noteq> state mj
           \<and> run_seeds 0 m =
               Some (spec_output (state mi),
                     spec_output (state mi * 6364136223846793005 + inc' mi))
           \<and> run_seeds 1 m =
               Some (spec_output (state mj),
                     spec_output (state mj * 6364136223846793005 + inc' mj))"
    by blast
  with m show ?thesis by simp
qed

section \<open>Double precision arithmetic\<close>

text \<open>
  A finite \<open>double\<close> is the rational number it stands for. An operation computes the
  exact result and rounds it to the nearest number with a 53-bit significand, ties to
  even (the default rounding of IEEE 754 binary64). Results outside the normal range
  (below \<open>2 ^ -1022\<close> in magnitude and not zero, or from \<open>2 ^ 1023\<close> on) are not modelled:
  the operation returns \<open>None\<close> there, so a theorem that a computation returns \<open>Some\<close>
  also says that it stays in the range where this model is exact.
\<close>

type_synonym double = rat

definition round_half_even :: "rat \<Rightarrow> int" where
  "round_half_even t =
     (let f = \<lfloor>t\<rfloor>; r = t - of_int f
      in if r < 1 / 2 then f else if 1 / 2 < r then f + 1 else if even f then f else f + 1)"

definition floor_log2 :: "rat \<Rightarrow> int" where
  "floor_log2 q =
     (let (a, b) = quotient_of q; e0 = bitlen a - bitlen b
      in if 2 powi e0 \<le> q then e0 else e0 - 1)"

definition round_double :: "rat \<Rightarrow> double option" where
  "round_double q =
     (if q = 0 then Some 0
      else if \<bar>q\<bar> < 2 powi (- 1022) \<or> 2 powi 1023 \<le> \<bar>q\<bar> then None
      else let e = floor_log2 \<bar>q\<bar> - 52
           in Some (of_int (round_half_even (q / 2 powi e)) * 2 powi e))"

definition normal_range :: "rat \<Rightarrow> bool" where
  "normal_range q \<longleftrightarrow> q = 0 \<or> (2 powi (- 1022) \<le> \<bar>q\<bar> \<and> \<bar>q\<bar> < 2 powi 1023)"

subsection \<open>Rounding is exact on representable numbers and has relative error at most \<open>2 ^ -53\<close>\<close>

lemma round_half_even_of_int: "round_half_even (of_int z) = z"
  by (simp add: round_half_even_def)

lemma round_half_even_error: "\<bar>of_int (round_half_even t) - t\<bar> \<le> 1 / 2"
proof -
  define r where "r = t - of_int \<lfloor>t\<rfloor>"
  have r: "0 \<le> r" "r < 1" unfolding r_def by linarith+
  have t: "t = of_int \<lfloor>t\<rfloor> + r" unfolding r_def by simp
  have "round_half_even t = \<lfloor>t\<rfloor> \<and> r \<le> 1 / 2
      \<or> round_half_even t = \<lfloor>t\<rfloor> + 1 \<and> 1 / 2 \<le> r"
    unfolding round_half_even_def Let_def r_def [symmetric] by auto
  then show ?thesis
  proof
    assume a: "round_half_even t = \<lfloor>t\<rfloor> \<and> r \<le> 1 / 2"
    then have "of_int (round_half_even t) - t = - r" using t by simp
    then show ?thesis using r a by simp
  next
    assume a: "round_half_even t = \<lfloor>t\<rfloor> + 1 \<and> 1 / 2 \<le> r"
    then have "of_int (round_half_even t) - t = 1 - r" using t by simp
    then show ?thesis using r a by simp
  qed
qed

lemma bitlen_rat_bounds:
  assumes "0 < x"
  shows "2 powi (bitlen x - 1) \<le> (of_int x :: rat)" and "(of_int x :: rat) < 2 powi (bitlen x)"
proof -
  have b: "2 ^ nat (bitlen x - 1) \<le> x" "x < 2 ^ nat (bitlen x)"
    using bitlen_bounds [OF assms] by simp_all
  have ge1: "1 \<le> bitlen x" using assms by (auto simp: bitlen_alt_def)
  have "(of_int (2 ^ nat (bitlen x - 1)) :: rat) \<le> of_int x"
    using b(1) by (simp only: of_int_le_iff)
  then show "2 powi (bitlen x - 1) \<le> (of_int x :: rat)"
    using ge1 by (simp add: power_int_nonneg_exp)
  have "(of_int x :: rat) < of_int (2 ^ nat (bitlen x))"
    using b(2) by (simp only: of_int_less_iff)
  then show "(of_int x :: rat) < 2 powi (bitlen x)"
    using ge1 by (simp add: power_int_nonneg_exp)
qed

lemma two_powi_diff: "2 powi x / 2 powi y = (2::rat) powi (x - y)"
  by (simp add: power_int_diff)

lemma two_powi_add: "2 powi x * 2 powi y = (2::rat) powi (x + y)"
  by (simp add: power_int_add)

lemma two_powi_pos: "0 < (2::rat) powi x"
  by (simp add: zero_less_power_int)

lemma floor_log2_bounds:
  assumes "0 < q"
  shows "2 powi (floor_log2 q) \<le> q" and "q < 2 powi (floor_log2 q + 1)"
proof -
  obtain a b where ab: "quotient_of q = (a, b)" by (cases "quotient_of q")
  have b: "0 < b" using ab by (rule quotient_of_denom_pos)
  have q: "q = of_int a / of_int b" using ab by (rule quotient_of_div)
  have a: "0 < a" using assms b unfolding q by (simp add: zero_less_divide_iff)
  define e0 where "e0 = bitlen a - bitlen b"
  have fl: "floor_log2 q = (if 2 powi e0 \<le> q then e0 else e0 - 1)"
    by (simp add: floor_log2_def ab e0_def Let_def)
  have two: "(2::rat) \<noteq> 0" by simp
  have "q < 2 powi (bitlen a) / 2 powi (bitlen b - 1)"
    unfolding q using bitlen_rat_bounds [OF a] bitlen_rat_bounds [OF b] a b
    by (intro frac_less) (auto intro: less_le_trans)
  also have "\<dots> = 2 powi (bitlen a - (bitlen b - 1))"
    by (rule two_powi_diff)
  also have "bitlen a - (bitlen b - 1) = e0 + 1"
    unfolding e0_def by simp
  finally have up: "q < 2 powi (e0 + 1)" .
  have "2 powi (bitlen a - 1) / 2 powi (bitlen b) \<le> q"
    unfolding q using bitlen_rat_bounds [OF a] bitlen_rat_bounds [OF b] a b
    by (intro frac_le) (auto intro: less_imp_le simp: two_powi_pos)
  moreover have "2 powi (bitlen a - 1) / 2 powi (bitlen b) = (2::rat) powi (bitlen a - 1 - bitlen b)"
    by (rule two_powi_diff)
  moreover have "bitlen a - 1 - bitlen b = e0 - 1"
    unfolding e0_def by simp
  ultimately have lo: "2 powi (e0 - 1) \<le> q" by simp
  show "2 powi (floor_log2 q) \<le> q" using lo by (simp add: fl)
  show "q < 2 powi (floor_log2 q + 1)" using up by (auto simp: fl not_le)
qed


lemma round_double_Some:
  assumes "normal_range q" "q \<noteq> 0"
  shows "round_double q =
    Some (of_int (round_half_even (q / 2 powi (floor_log2 \<bar>q\<bar> - 52))) * 2 powi (floor_log2 \<bar>q\<bar> - 52))"
  using assms by (auto simp: round_double_def normal_range_def Let_def)

lemma round_double_exact:
  assumes nr: "normal_range q" and q: "q = of_int m * 2 powi k" and m: "\<bar>m\<bar> < 2 ^ 53"
  shows "round_double q = Some q"
proof (cases "q = 0")
  case True
  then show ?thesis by (simp add: round_double_def)
next
  case False
  define e where "e = floor_log2 \<bar>q\<bar> - 52"
  have pos: "0 < \<bar>q\<bar>" using False by simp
  have lo: "2 powi (e + 52) \<le> \<bar>q\<bar>"
    using floor_log2_bounds(1) [OF pos] by (simp add: e_def)
  have ke: "e \<le> k"
  proof (rule ccontr)
    assume "\<not> e \<le> k"
    then have "k + 53 \<le> e + 52" by simp
    have "\<bar>q\<bar> = of_int \<bar>m\<bar> * 2 powi k"
      unfolding q by (simp add: abs_mult power_int_abs)
    also have "\<dots> < 2 ^ 53 * 2 powi k"
    proof -
      have "(of_int \<bar>m\<bar> :: rat) < of_int (2 ^ 53)" using m by (simp only: of_int_less_iff)
      then show ?thesis by (simp add: two_powi_pos)
    qed
    also have "\<dots> = 2 powi (k + 53)"
      using two_powi_add [of 53 k] by (simp add: ac_simps)
    also have "\<dots> \<le> 2 powi (e + 52)"
      using \<open>k + 53 \<le> e + 52\<close> by (intro power_int_increasing) simp_all
    finally show False using lo by simp
  qed
  have "q / 2 powi e = of_int m * 2 powi (k - e)"
    unfolding q by (simp add: two_powi_diff [symmetric])
  also have "2 powi (k - e) = (2::rat) ^ nat (k - e)"
    using ke by (simp add: power_int_nonneg_exp)
  also have "of_int m * (2::rat) ^ nat (k - e) = of_int (m * 2 ^ nat (k - e))"
    by simp
  finally have t: "q / 2 powi e = of_int (m * 2 ^ nat (k - e))" .
  have "of_int (round_half_even (q / 2 powi e)) * 2 powi e = q / 2 powi e * 2 powi e"
    unfolding t round_half_even_of_int ..
  also have "\<dots> = q" by simp
  finally show ?thesis
    using round_double_Some [OF nr False] by (simp add: e_def)
qed

lemma round_double_error:
  assumes "round_double q = Some r"
  shows "\<bar>r - q\<bar> \<le> \<bar>q\<bar> / 2 ^ 53"
proof (cases "q = 0")
  case True
  with assms show ?thesis by (simp add: round_double_def)
next
  case False
  define e where "e = floor_log2 \<bar>q\<bar> - 52"
  define t where "t = q / 2 powi e"
  have r: "r = of_int (round_half_even t) * 2 powi e"
    using assms False by (auto simp: round_double_def Let_def e_def t_def split: if_splits)
  have pos: "0 < \<bar>q\<bar>" using False by simp
  have lo: "2 powi (e + 52) \<le> \<bar>q\<bar>"
    using floor_log2_bounds(1) [OF pos] by (simp add: e_def)
  have qt: "q = t * 2 powi e" unfolding t_def by simp
  have "r - q = of_int (round_half_even t) * 2 powi e - t * 2 powi e"
    unfolding r using qt by simp
  then have "r - q = (of_int (round_half_even t) - t) * 2 powi e"
    by (simp add: algebra_simps)
  then have "\<bar>r - q\<bar> = \<bar>of_int (round_half_even t) - t\<bar> * 2 powi e"
    by (simp add: abs_mult power_int_abs)
  also have "\<dots> \<le> 1 / 2 * 2 powi e"
    using round_half_even_error [of t] two_powi_pos [of e]
    by (intro mult_right_mono) simp_all
  also have "\<dots> = 2 powi (e + 52) / 2 ^ 53"
    using two_powi_add [of e 52] by simp
  also have "\<dots> \<le> \<bar>q\<bar> / 2 ^ 53"
    using lo by (simp add: divide_right_mono)
  finally show ?thesis .
qed

lemma round_double_nonneg:
  assumes "round_double q = Some r" "0 \<le> q"
  shows "0 \<le> r"
proof -
  have "\<bar>r - q\<bar> \<le> q / 2 ^ 53" using round_double_error [OF assms(1)] assms(2) by simp
  moreover have "q / 2 ^ 53 \<le> q" using assms(2) by (simp add: field_simps)
  ultimately show ?thesis by linarith
qed

text \<open>
  The conversions and operations of the C sources on \<open>double\<close>: a conversion from an integer
  type and every arithmetic operation round their exact result. A division by zero and
  a conversion to an integer type that does not hold the truncated value have no
  defined result here and return \<open>None\<close>.
\<close>

definition double_of_uint32 :: "uint32_t \<Rightarrow> double option" where
  "double_of_uint32 u = round_double (of_nat (unat u))"

definition double_of_long :: "int \<Rightarrow> double option" where
  "double_of_long n = round_double (of_int n)"

definition double_add :: "double \<Rightarrow> double \<Rightarrow> double option" where
  "double_add a b = round_double (a + b)"

definition double_mul :: "double \<Rightarrow> double \<Rightarrow> double option" where
  "double_mul a b = round_double (a * b)"

definition double_div :: "double \<Rightarrow> double \<Rightarrow> double option" where
  "double_div a b = (if b = 0 then None else round_double (a / b))"

text \<open>Truncation towards zero, as the casts \<open>(long int)\<close> and \<open>(int)\<close> of a \<open>double\<close> do.\<close>

definition truncate_double :: "double \<Rightarrow> int" where
  "truncate_double d = (if 0 \<le> d then \<lfloor>d\<rfloor> else \<lceil>d\<rceil>)"

definition long_of_double :: "double \<Rightarrow> int option" where
  "long_of_double d =
     (let n = truncate_double d
      in if - (2 ^ 63) \<le> n \<and> n < 2 ^ 63 then Some n else None)"

definition int_of_double :: "double \<Rightarrow> int option" where
  "int_of_double d =
     (let n = truncate_double d
      in if - (2 ^ 31) \<le> n \<and> n < 2 ^ 31 then Some n else None)"

text \<open>The macro \<open>UINT32_MAX\<close> of stdint.h.\<close>

definition UINT32_MAX :: uint32_t where
  "UINT32_MAX = 4294967295"

section \<open>The worker generator (pcg32.c)\<close>

text \<open>
  \<open>pcg32_random_state\<close> is a global of pcg32.c; \<open>myrand_init\<close> and \<open>myrand\<close> take it as an
  argument and return it updated. The parameters of \<open>myrand_init\<close> are
  \<open>unsigned long int\<close>, read as 64-bit values.
\<close>

definition myrand_init ::
  "pcg32_random_t \<Rightarrow> uint64_t \<Rightarrow> uint64_t \<Rightarrow> pcg32_random_t option" where
  "myrand_init pcg32_random_state initstate initseq =
     pcg32_srandom_r pcg32_random_state initstate initseq"

definition myrand :: "pcg32_random_t \<Rightarrow> (double \<times> pcg32_random_t) option" where
  "myrand pcg32_random_state =
     do {
       (r, rng) \<leftarrow> pcg32_random_r pcg32_random_state;
       num \<leftarrow> double_of_uint32 r;
       m \<leftarrow> double_of_uint32 UINT32_MAX;
       den \<leftarrow> double_add m 1;
       v \<leftarrow> double_div num den;
       Some (v, rng)
     }"

text \<open>The copies of main\_dat.c and 2d\_ran\_walk.c.\<close>

definition myrand_init_1d ::
  "pcg32_random_t \<Rightarrow> uint64_t \<Rightarrow> uint64_t \<Rightarrow> pcg32_random_t option" where
  "myrand_init_1d pcg32_random_state initstate initseq =
     pcg32_srandom_r_1d pcg32_random_state initstate initseq"

definition myrand_1d :: "pcg32_random_t \<Rightarrow> (double \<times> pcg32_random_t) option" where
  "myrand_1d pcg32_random_state =
     do {
       (r, rng) \<leftarrow> pcg32_random_r_1d pcg32_random_state;
       num \<leftarrow> double_of_uint32 r;
       m \<leftarrow> double_of_uint32 UINT32_MAX;
       den \<leftarrow> double_add m 1;
       v \<leftarrow> double_div num den;
       Some (v, rng)
     }"

definition myrand_init_2d ::
  "pcg32_random_t \<Rightarrow> uint64_t \<Rightarrow> uint64_t \<Rightarrow> pcg32_random_t option" where
  "myrand_init_2d pcg32_random_state initstate initseq =
     pcg32_srandom_r_2d pcg32_random_state initstate initseq"

definition myrand_2d :: "pcg32_random_t \<Rightarrow> (double \<times> pcg32_random_t) option" where
  "myrand_2d pcg32_random_state =
     do {
       (r, rng) \<leftarrow> pcg32_random_r_2d pcg32_random_state;
       num \<leftarrow> double_of_uint32 r;
       m \<leftarrow> double_of_uint32 UINT32_MAX;
       den \<leftarrow> double_add m 1;
       v \<leftarrow> double_div num den;
       Some (v, rng)
     }"

subsection \<open>C5: the uniform draw\<close>

lemma normal_rangeI:
  assumes "2 powi (- 32) \<le> \<bar>q\<bar>" "\<bar>q\<bar> \<le> 2 powi 64"
  shows "normal_range q"
proof -
  have "(2::rat) powi (- 1022) \<le> 2 powi (- 32)"
    by (rule power_int_increasing) simp_all
  moreover have "(2::rat) powi 64 < 2 powi 1023"
    by (rule power_int_strict_increasing) simp_all
  ultimately show ?thesis
    unfolding normal_range_def using assms by linarith
qed

lemma normal_range_nat:
  assumes "n \<le> 2 ^ 64"
  shows "normal_range (of_nat n)"
proof (cases "n = 0")
  case True
  then show ?thesis by (simp add: normal_range_def)
next
  case False
  then have "(1::rat) \<le> of_nat n" by simp
  moreover have "(2::rat) powi (- 32) \<le> 1"
    by (simp add: power_int_minus field_simps)
  moreover have "(of_nat n :: rat) \<le> of_nat (2 ^ 64)" using assms by (simp only: of_nat_le_iff)
  ultimately show ?thesis
    by (intro normal_rangeI) simp_all
qed

lemma round_double_of_nat:
  assumes "n < 2 ^ 53"
  shows "round_double (of_nat n) = Some (of_nat n)"
proof (rule round_double_exact)
  show "normal_range (of_nat n)" using assms by (intro normal_range_nat) simp
  show "(of_nat n :: rat) = of_int (int n) * 2 powi 0" by simp
  show "\<bar>int n\<bar> < 2 ^ 53" using assms by simp
qed

lemma double_of_uint32_exact: "double_of_uint32 u = Some (of_nat (unat u))"
proof -
  have "unat u < 2 ^ 32" using unsigned_less [of u] by simp
  then have "unat u < 2 ^ 53" by simp
  then show ?thesis unfolding double_of_uint32_def by (rule round_double_of_nat)
qed

lemma myrand_divisor_exact: "double_add (of_nat (unat UINT32_MAX)) 1 = Some 4294967296"
proof -
  have "round_double (of_nat 4294967296) = Some (of_nat 4294967296)"
    by (rule round_double_of_nat) simp
  then show ?thesis
    by (simp add: UINT32_MAX_def double_add_def)
qed

lemma myrand_divisor:
  "do { m \<leftarrow> double_of_uint32 UINT32_MAX; double_add m 1 } = Some 4294967296"
  by (simp only: double_of_uint32_exact bind.bind_lunit myrand_divisor_exact)

lemma round_double_uniform:
  assumes "n < 2 ^ 32"
  shows "round_double (of_nat n / 4294967296) = Some (of_nat n / 4294967296)"
proof (rule round_double_exact)
  show q: "(of_nat n / 4294967296 :: rat) = of_int (int n) * 2 powi (- 32)"
    by (simp add: power_int_minus field_simps)
  show "\<bar>int n\<bar> < 2 ^ 53" using assms by simp
  show "normal_range (of_nat n / 4294967296)"
  proof (cases "n = 0")
    case True
    then show ?thesis by (simp add: normal_range_def)
  next
    case False
    then have "(1::rat) \<le> of_nat n" by simp
    then have "(2::rat) powi (- 32) \<le> \<bar>of_nat n / 4294967296\<bar>"
      by (simp add: power_int_minus field_simps)
    moreover have "(of_nat n :: rat) < of_nat (2 ^ 32)" using assms by (simp only: of_nat_less_iff)
    then have "\<bar>of_nat n / 4294967296 :: rat\<bar> \<le> 1" by (simp add: field_simps)
    moreover have "(1::rat) \<le> 2 powi 64" by simp
    ultimately show ?thesis by (intro normal_rangeI) simp_all
  qed
qed

lemma double_div_uniform:
  "double_div (of_nat (unat (r::uint32_t))) 4294967296 = Some (of_nat (unat r) / 2 ^ 32)"
proof -
  have "unat r < 2 ^ 32" using unsigned_less [of r] by simp
  then have "round_double (of_nat (unat r) / 4294967296) = Some (of_nat (unat r) / 4294967296)"
    by (rule round_double_uniform)
  moreover have "(2::rat) ^ 32 = 4294967296" by simp
  ultimately show ?thesis
    unfolding double_div_def by (simp only: rel_simps if_False)
qed

lemma uniform_bounds:
  "0 \<le> (of_nat (unat (r::uint32_t)) / 2 ^ 32 :: rat)"
  "(of_nat (unat (r::uint32_t)) / 2 ^ 32 :: rat) < 1"
proof -
  have "unat r < 2 ^ 32" using unsigned_less [of r] by simp
  then have "(of_nat (unat r) :: rat) < of_nat (2 ^ 32)" by (simp only: of_nat_less_iff)
  then have "(of_nat (unat r) :: rat) < 2 ^ 32" by (simp only: of_nat_power of_nat_numeral)
  then show "(of_nat (unat r) / 2 ^ 32 :: rat) < 1"
    by (simp only: divide_less_eq_1_pos zero_less_power zero_less_numeral)
  show "0 \<le> (of_nat (unat r) / 2 ^ 32 :: rat)"
    by (intro divide_nonneg_nonneg of_nat_0_le_iff zero_le_power) simp
qed

lemmas uniform_draw_simps =
  bind.bind_lunit case_prod_conv double_of_uint32_exact myrand_divisor_exact double_div_uniform

lemma myrand_eq:
  "myrand rng =
     Some (of_nat (unat (spec_output (state rng))) / 2 ^ 32,
           rng\<lparr>state := spec_transition (inc' rng) (state rng)\<rparr>)"
  by (simp only: myrand_def pcg32_random_r_eq uniform_draw_simps)

lemma myrand_1d_eq:
  "myrand_1d rng =
     Some (of_nat (unat (spec_output (state rng))) / 2 ^ 32,
           rng\<lparr>state := spec_transition (inc' rng) (state rng)\<rparr>)"
  by (simp only: myrand_1d_def pcg32_random_r_1d_eq uniform_draw_simps)

lemma myrand_2d_eq:
  "myrand_2d rng =
     Some (of_nat (unat (spec_output (state rng))) / 2 ^ 32,
           rng\<lparr>state := spec_transition (inc' rng) (state rng)\<rparr>)"
  by (simp only: myrand_2d_def pcg32_random_r_2d_eq uniform_draw_simps)

lemma largest_draw:
  "do { num \<leftarrow> double_of_uint32 4294967295; m \<leftarrow> double_of_uint32 UINT32_MAX;
        den \<leftarrow> double_add m 1; double_div num den } = Some (4294967295 / 4294967296)"
proof -
  have "(of_nat (unat (4294967295 :: uint32_t)) / 2 ^ 32 :: rat) = 4294967295 / 4294967296"
    by simp
  then show ?thesis
    by (simp only: uniform_draw_simps)
qed


text \<open>
  C5. For every generator, \<open>myrand\<close> returns the double \<open>r / 2 ^ 32\<close>, where \<open>r\<close> is the
  result of \<open>pcg32_random_r\<close> on that generator, exactly: the conversions, the sum
  \<open>(double)UINT32_MAX + 1.0 = 4294967296\<close> and the quotient are all representable, so
  no operation rounds. The value \<open>v\<close> satisfies \<open>0 \<le> v < 1\<close>; the largest one is
  \<open>4294967295 / 4294967296\<close>.
\<close>

theorem C5_uniform:
  "\<exists>r rng1 v.
     pcg32_random_r rng = Some (r, rng1)
     \<and> myrand rng = Some (v, rng1)
     \<and> myrand_1d rng = Some (v, rng1)
     \<and> v = of_nat (unat r) / 2 ^ 32
     \<and> 0 \<le> v \<and> v < 1
     \<and> do { m \<leftarrow> double_of_uint32 UINT32_MAX; double_add m 1 } = Some 4294967296
     \<and> do { num \<leftarrow> double_of_uint32 4294967295; m \<leftarrow> double_of_uint32 UINT32_MAX;
            den \<leftarrow> double_add m 1; double_div num den } = Some (4294967295 / 4294967296)
     \<and> (4294967295 / 4294967296 :: rat) < 1"
proof (intro exI conjI)
  show "pcg32_random_r rng =
      Some (spec_output (state rng), rng\<lparr>state := spec_transition (inc' rng) (state rng)\<rparr>)"
    by (rule pcg32_random_r_eq)
  show "myrand rng = Some (of_nat (unat (spec_output (state rng))) / 2 ^ 32,
      rng\<lparr>state := spec_transition (inc' rng) (state rng)\<rparr>)"
    by (rule myrand_eq)
  show "myrand_1d rng = Some (of_nat (unat (spec_output (state rng))) / 2 ^ 32,
      rng\<lparr>state := spec_transition (inc' rng) (state rng)\<rparr>)"
    by (rule myrand_1d_eq)
  show "(of_nat (unat (spec_output (state rng))) / 2 ^ 32 :: rat) =
      of_nat (unat (spec_output (state rng))) / 2 ^ 32" ..
  show "0 \<le> (of_nat (unat (spec_output (state rng))) / 2 ^ 32 :: rat)"
    by (rule uniform_bounds)
  show "(of_nat (unat (spec_output (state rng))) / 2 ^ 32 :: rat) < 1"
    by (rule uniform_bounds)
  show "do { m \<leftarrow> double_of_uint32 UINT32_MAX; double_add m 1 } = Some 4294967296"
    by (rule myrand_divisor)
  show "do { num \<leftarrow> double_of_uint32 4294967295; m \<leftarrow> double_of_uint32 UINT32_MAX;
            den \<leftarrow> double_add m 1; double_div num den } = Some (4294967295 / 4294967296)"
    by (rule largest_draw)
  show "(4294967295 / 4294967296 :: rat) < 1" by simp
qed

section \<open>The programs' view of the two generators\<close>

text \<open>
  The master generator \<open>rng_state\<close> of seed\_generator.c and the worker generator
  \<open>pcg32_random_state\<close> are globals. A program threads both through its calls. The field
  \<open>trace\<close> is not in the source: it records, in order, every call the program makes to
  the generator interface and the beginning of every iteration of its run loop, so that
  the order of the calls can be stated.
\<close>

datatype rng_call =
    Seedgen_init uint64_t uint64_t
  | Generate_seed uint32_t
  | Myrand_init uint64_t uint64_t
  | Myrand

datatype event = Run_begin nat | Call rng_call

record rng_globals =
  rng_state :: pcg32_random_t
  pcg32_random_state :: pcg32_random_t
  trace :: "event list"

definition call_seedgen_init :: "rng_globals \<Rightarrow> uint64_t \<Rightarrow> uint64_t \<Rightarrow> rng_globals option" where
  "call_seedgen_init g st seq =
     do {
       m \<leftarrow> seedgen_init (rng_state g) st seq;
       Some (g\<lparr>rng_state := m, trace := trace g @ [Call (Seedgen_init st seq)]\<rparr>)
     }"

definition call_generate_seed :: "rng_globals \<Rightarrow> (uint32_t \<times> rng_globals) option" where
  "call_generate_seed g =
     do {
       (seed, m) \<leftarrow> generate_seed (rng_state g);
       Some (seed, g\<lparr>rng_state := m, trace := trace g @ [Call (Generate_seed seed)]\<rparr>)
     }"

definition call_myrand_init :: "rng_globals \<Rightarrow> uint64_t \<Rightarrow> uint64_t \<Rightarrow> rng_globals option" where
  "call_myrand_init g initstate initseq =
     do {
       w \<leftarrow> myrand_init (pcg32_random_state g) initstate initseq;
       Some (g\<lparr>pcg32_random_state := w,
               trace := trace g @ [Call (Myrand_init initstate initseq)]\<rparr>)
     }"

definition call_myrand :: "rng_globals \<Rightarrow> (double \<times> rng_globals) option" where
  "call_myrand g =
     do {
       (v, w) \<leftarrow> myrand (pcg32_random_state g);
       Some (v, g\<lparr>pcg32_random_state := w, trace := trace g @ [Call Myrand]\<rparr>)
     }"

section \<open>The lattice gas (diff\_coef.c)\<close>

text \<open>
  The globals of diff\_coef.c that the lattice functions use. A \<open>long int\<close> is an \<open>int\<close>
  here: every index is bounded by an array length, and the well-formedness of a lattice
  below keeps \<open>VOLUME * DIM\<close> under \<open>2 ^ 63\<close>. A heap array is a list; reading or writing
  outside it is undefined in C and \<open>None\<close> here. A function that returns \<open>None\<close> did not
  complete: it ran into undefined behaviour or called \<open>exit(EXIT_FAILURE)\<close>. The
  displacement counters \<open>TRUE_POS\<close>, which move by one at a hop, are taken not to reach
  the ends of the range of \<open>long int\<close>.
\<close>

definition DIM :: int where
  "DIM = 2"

definition MY_EMPTY :: int where
  "MY_EMPTY = - 1"

record lattice =
  L :: int
  particleOfSite :: "int list"
  positionOfParticle :: "int list"
  zeroPositionOfParticle :: "int list"
  truePositionOfParticle :: "int list"
  plusNeighbor :: "int list"
  minusNeighbor :: "int list"

definition array_get :: "int list \<Rightarrow> int \<Rightarrow> int option" where
  "array_get a i = (if 0 \<le> i \<and> i < int (length a) then Some (a ! nat i) else None)"

definition array_set :: "int list \<Rightarrow> int \<Rightarrow> int \<Rightarrow> int list option" where
  "array_set a i v = (if 0 \<le> i \<and> i < int (length a) then Some (a[nat i := v]) else None)"

text \<open>The macros \<open>SITE\<close>, \<open>POS\<close>, \<open>ZERO_POS\<close> and \<open>TRUE_POS\<close>, read and written.\<close>

definition SITE :: "lattice \<Rightarrow> int \<Rightarrow> int \<Rightarrow> int option" where
  "SITE lat x y = array_get (particleOfSite lat) (x * L lat + y)"

definition SITE_set :: "lattice \<Rightarrow> int \<Rightarrow> int \<Rightarrow> int \<Rightarrow> lattice option" where
  "SITE_set lat x y v =
     do { a \<leftarrow> array_set (particleOfSite lat) (x * L lat + y) v;
          Some (lat\<lparr>particleOfSite := a\<rparr>) }"

definition POS :: "lattice \<Rightarrow> int \<Rightarrow> int \<Rightarrow> int option" where
  "POS lat p mu = array_get (positionOfParticle lat) (p * DIM + mu)"

definition POS_set :: "lattice \<Rightarrow> int \<Rightarrow> int \<Rightarrow> int \<Rightarrow> lattice option" where
  "POS_set lat p mu v =
     do { a \<leftarrow> array_set (positionOfParticle lat) (p * DIM + mu) v;
          Some (lat\<lparr>positionOfParticle := a\<rparr>) }"

definition ZERO_POS_set :: "lattice \<Rightarrow> int \<Rightarrow> int \<Rightarrow> int \<Rightarrow> lattice option" where
  "ZERO_POS_set lat p mu v =
     do { a \<leftarrow> array_set (zeroPositionOfParticle lat) (p * DIM + mu) v;
          Some (lat\<lparr>zeroPositionOfParticle := a\<rparr>) }"

definition TRUE_POS :: "lattice \<Rightarrow> int \<Rightarrow> int \<Rightarrow> int option" where
  "TRUE_POS lat p mu = array_get (truePositionOfParticle lat) (p * DIM + mu)"

definition TRUE_POS_set :: "lattice \<Rightarrow> int \<Rightarrow> int \<Rightarrow> int \<Rightarrow> lattice option" where
  "TRUE_POS_set lat p mu v =
     do { a \<leftarrow> array_set (truePositionOfParticle lat) (p * DIM + mu) v;
          Some (lat\<lparr>truePositionOfParticle := a\<rparr>) }"

text \<open>
  One iteration of the loop of \<open>updateLattice\<close>. The two \<open>switch\<close> statements on \<open>dir\<close> are
  written as conditionals; \<open>continue\<close> returns the state unchanged but for the generator.
\<close>

definition updateLattice_attempt ::
  "int \<Rightarrow> lattice \<times> rng_globals \<Rightarrow> (lattice \<times> rng_globals) option" where
  "updateLattice_attempt trueN = (\<lambda>(lat, g).
     do {
       (r1, g1) \<leftarrow> call_myrand g;
       n \<leftarrow> double_of_long trueN;
       prod \<leftarrow> double_mul r1 n;
       p \<leftarrow> long_of_double prod;
       x \<leftarrow> POS lat p 0;
       y \<leftarrow> POS lat p 1;
       (r2, g2) \<leftarrow> call_myrand g1;
       d \<leftarrow> double_mul 4 r2;
       dir \<leftarrow> int_of_double d;
       if dir < 0 \<or> 3 < dir then None
       else do {
         nx \<leftarrow> (if dir = 0 then array_get (plusNeighbor lat) x
                else if dir = 1 then array_get (minusNeighbor lat) x
                else Some x);
         ny \<leftarrow> (if dir = 2 then array_get (plusNeighbor lat) y
                else if dir = 3 then array_get (minusNeighbor lat) y
                else Some y);
         occupant \<leftarrow> SITE lat nx ny;
         if occupant \<noteq> MY_EMPTY then Some (lat, g2)
         else do {
           lat1 \<leftarrow> SITE_set lat nx ny p;
           lat2 \<leftarrow> SITE_set lat1 x y MY_EMPTY;
           lat3 \<leftarrow> POS_set lat2 p 0 nx;
           lat4 \<leftarrow> POS_set lat3 p 1 ny;
           t \<leftarrow> TRUE_POS lat4 p (if dir = 0 \<or> dir = 1 then 0 else 1);
           lat5 \<leftarrow> TRUE_POS_set lat4 p (if dir = 0 \<or> dir = 1 then 0 else 1)
                    (if dir = 0 \<or> dir = 2 then t + 1 else t - 1);
           Some (lat5, g2)
         }
       }
     })"

text \<open>\<open>updateLattice\<close>: \<open>trueN\<close> attempts, none when \<open>trueN\<close> is not positive.\<close>

fun updateLattice_loop ::
  "nat \<Rightarrow> int \<Rightarrow> lattice \<times> rng_globals \<Rightarrow> (lattice \<times> rng_globals) option" where
  "updateLattice_loop 0 trueN s = Some s"
| "updateLattice_loop (Suc k) trueN s =
     do { s1 \<leftarrow> updateLattice_attempt trueN s; updateLattice_loop k trueN s1 }"

definition updateLattice ::
  "int \<Rightarrow> lattice \<times> rng_globals \<Rightarrow> (lattice \<times> rng_globals) option" where
  "updateLattice trueN s = updateLattice_loop (nat trueN) trueN s"

text \<open>
  The neighbour tables as \<open>myInit\<close> fills them: \<open>i + 1\<close> and \<open>i - 1\<close> for every \<open>i\<close>, then
  \<open>plusNeighbor[L - 1] = 0\<close> and \<open>minusNeighbor[0] = L - 1\<close>.
\<close>

definition myInit_plusNeighbor :: "int \<Rightarrow> int list option" where
  "myInit_plusNeighbor l = array_set (map (\<lambda>i. i + 1) [0..l - 1]) (l - 1) 0"

definition myInit_minusNeighbor :: "int \<Rightarrow> int list option" where
  "myInit_minusNeighbor l = array_set (map (\<lambda>i. i - 1) [0..l - 1]) 0 (l - 1)"

text \<open>
  A lattice as \<open>myInit\<close> leaves it: the four arrays allocated with their sizes, the
  neighbour tables filled, \<open>L\<close> positive, and every index below \<open>2 ^ 63\<close>.
\<close>

definition lattice_allocated :: "lattice \<Rightarrow> bool" where
  "lattice_allocated lat \<longleftrightarrow>
     0 < L lat \<and> L lat * L lat * DIM < 2 ^ 63
     \<and> int (length (particleOfSite lat)) = L lat * L lat
     \<and> int (length (positionOfParticle lat)) = L lat * L lat * DIM
     \<and> int (length (zeroPositionOfParticle lat)) = L lat * L lat * DIM
     \<and> int (length (truePositionOfParticle lat)) = L lat * L lat * DIM
     \<and> myInit_plusNeighbor (L lat) = Some (plusNeighbor lat)
     \<and> myInit_minusNeighbor (L lat) = Some (minusNeighbor lat)"

text \<open>
  The consistency of a lattice with \<open>trueN\<close> particles: exactly \<open>trueN\<close> sites are occupied,
  the occupied sites hold distinct particle indices, and each occupied site \<open>(x, y)\<close>
  holds an index \<open>p\<close> in \<open>[0, trueN)\<close> with \<open>POS(p, 0) = x\<close> and \<open>POS(p, 1) = y\<close>.
\<close>

definition occupied :: "lattice \<Rightarrow> int list" where
  "occupied lat = filter (\<lambda>p. p \<noteq> MY_EMPTY) (particleOfSite lat)"

definition site_consistent :: "lattice \<Rightarrow> int \<Rightarrow> int \<Rightarrow> int \<Rightarrow> bool" where
  "site_consistent lat trueN x y =
     (case SITE lat x y of
        None \<Rightarrow> False
      | Some p \<Rightarrow>
          p = MY_EMPTY
          \<or> (0 \<le> p \<and> p < trueN \<and> POS lat p 0 = Some x \<and> POS lat p 1 = Some y))"

definition lattice_ok :: "lattice \<Rightarrow> int \<Rightarrow> bool" where
  "lattice_ok lat trueN \<longleftrightarrow>
     lattice_allocated lat
     \<and> int (length (occupied lat)) = trueN
     \<and> distinct (occupied lat)
     \<and> (\<forall>x \<in> {0..<L lat}. \<forall>y \<in> {0..<L lat}. site_consistent lat trueN x y)"

text \<open>A lattice of side 2 with one particle at the site \<open>(0, 0)\<close>, and a pair of generators.\<close>

definition example_lattice :: lattice where
  "example_lattice =
     \<lparr>L = 2,
      particleOfSite = [0, MY_EMPTY, MY_EMPTY, MY_EMPTY],
      positionOfParticle = [0, 0, 0, 0, 0, 0, 0, 0],
      zeroPositionOfParticle = [0, 0, 0, 0, 0, 0, 0, 0],
      truePositionOfParticle = [0, 0, 0, 0, 0, 0, 0, 0],
      plusNeighbor = [1, 0],
      minusNeighbor = [1, 0]\<rparr>"

definition example_globals :: rng_globals where
  "example_globals =
     \<lparr>rng_state = rng_state_initial, pcg32_random_state = \<lparr>state = 0, inc' = 1\<rparr>, trace = []\<rparr>"


section \<open>Properties of the lattice gas\<close>

subsection \<open>The particle index and the direction are in range\<close>

lemma normal_range_wide:
  assumes "2 powi (- 64) \<le> \<bar>q\<bar>" "\<bar>q\<bar> \<le> 2 powi 64"
  shows "normal_range q"
proof -
  have "(2::rat) powi (- 1022) \<le> 2 powi (- 64)"
    by (rule power_int_increasing) simp_all
  moreover have "(2::rat) powi 64 < 2 powi 1023"
    by (rule power_int_strict_increasing) simp_all
  ultimately show ?thesis
    unfolding normal_range_def using assms by linarith
qed

lemma round_double_defined:
  assumes "normal_range q"
  shows "\<exists>r. round_double q = Some r"
  using assms by (auto simp: round_double_def normal_range_def Let_def)

lemma two_powi_64: "(2::rat) powi 64 = 18446744073709551616"
  and two_powi_m64: "(2::rat) powi (- 64) = 1 / 18446744073709551616"
  by (simp_all add: power_int_minus field_simps)

lemma pick_particle:
  assumes n: "0 < trueN" "trueN < 2 ^ 63" and v: "0 \<le> v" "v \<le> 4294967295 / 4294967296"
    and vz: "v = 0 \<or> 1 / 4294967296 \<le> v"
  shows "\<exists>p. do { n \<leftarrow> double_of_long trueN; prod \<leftarrow> double_mul v n; long_of_double prod }
              = Some p \<and> 0 \<le> p \<and> p < trueN"
proof -
  define N :: rat where "N = of_int trueN"
  have N: "1 \<le> N" "N < 9223372036854775808"
  proof -
    show "1 \<le> N" using n(1) by (simp add: N_def)
    have "(of_int trueN :: rat) < of_int (2 ^ 63)" using n(2) by (simp only: of_int_less_iff)
    then show "N < 9223372036854775808" by (simp add: N_def)
  qed
  have "normal_range N"
    using N by (intro normal_range_wide) (simp_all add: two_powi_64 two_powi_m64)
  then obtain dn where dn: "round_double N = Some dn"
    using round_double_defined by blast
  have dn_err: "\<bar>dn - N\<bar> \<le> N / 2 ^ 53"
    using round_double_error [OF dn] N by simp
  have small: "N / 2 ^ 53 \<le> N / 2" using N(1) by (simp add: field_simps)
  have dn_lo: "1 / 2 \<le> dn"
    using dn_err small N(1) by (simp only: abs_le_iff) linarith
  have "dn \<le> N + N / 2 ^ 53"
    using dn_err by (simp only: abs_le_iff) linarith
  also have "\<dots> = N * (1 + 1 / 2 ^ 53)" by (simp add: algebra_simps)
  finally have dn_hi: "dn \<le> N * (1 + 1 / 2 ^ 53)" .
  define x where "x = v * dn"
  have x0: "0 \<le> x" using v(1) dn_lo by (simp add: x_def)
  have x_hi: "x \<le> 4294967295 / 4294967296 * (N * (1 + 1 / 2 ^ 53))"
    unfolding x_def using v dn_hi dn_lo by (intro mult_mono) simp_all
  have "normal_range x"
  proof (cases "v = 0")
    case True
    then show ?thesis by (simp add: x_def normal_range_def)
  next
    case False
    with vz have "1 / 4294967296 \<le> v" by simp
    then have "1 / 4294967296 * (1 / 2) \<le> x"
      unfolding x_def using dn_lo by (intro mult_mono) simp_all
    moreover have "x \<le> 18446744073709551616"
      using x_hi N by (simp add: field_simps)
    ultimately show ?thesis
      using x0 by (intro normal_range_wide) (simp_all add: two_powi_64 two_powi_m64)
  qed
  then obtain r where r: "round_double x = Some r"
    using round_double_defined by blast
  have r0: "0 \<le> r" using round_double_nonneg [OF r x0] .
  have "\<bar>r - x\<bar> \<le> x / 2 ^ 53" using round_double_error [OF r] x0 by simp
  then have "r \<le> x + x / 2 ^ 53" by (simp only: abs_le_iff) linarith
  also have "\<dots> = x * (1 + 1 / 2 ^ 53)" by (simp add: algebra_simps)
  finally have "r \<le> x * (1 + 1 / 2 ^ 53)" .
  then have "r \<le> x * (1 + 1 / 2 ^ 53)" .
  also have "\<dots> \<le> 4294967295 / 4294967296 * (N * (1 + 1 / 2 ^ 53)) * (1 + 1 / 2 ^ 53)"
    using x_hi by (intro mult_right_mono) simp_all
  also have "\<dots> = N * (4294967295 / 4294967296 * (1 + 1 / 2 ^ 53) * (1 + 1 / 2 ^ 53))"
    by (simp add: algebra_simps)
  also have "\<dots> < N * 1"
    using N(1) by (intro mult_strict_left_mono) simp_all
  finally have rN: "r < N" by simp
  have fl: "0 \<le> \<lfloor>r\<rfloor>" "\<lfloor>r\<rfloor> < trueN"
    using r0 rN by (simp_all add: N_def floor_less_iff)
  have "long_of_double r = Some \<lfloor>r\<rfloor>"
    using fl n r0 rN N by (simp add: long_of_double_def truncate_double_def Let_def)
  then show ?thesis
    using dn r fl by (simp add: double_of_long_def double_mul_def N_def x_def)
qed

lemma pick_direction:
  assumes "u < 2 ^ 32"
  shows "\<exists>dir. do { d \<leftarrow> double_mul 4 (of_nat u / 2 ^ 32); int_of_double d } = Some dir
           \<and> 0 \<le> dir \<and> dir \<le> 3"
proof -
  define q :: rat where "q = 4 * (of_nat u / 2 ^ 32)"
  have qu: "q = of_int (int u) * 2 powi (- 30)"
    by (simp add: q_def power_int_minus field_simps)
  have ur: "(of_nat u :: rat) < 4294967296"
  proof -
    have "(of_nat u :: rat) < of_nat (2 ^ 32)" using assms by (simp only: of_nat_less_iff)
    then show ?thesis by simp
  qed
  have q4: "0 \<le> q" "q < 4" using ur by (simp_all add: q_def)
  have "normal_range q"
  proof (cases "u = 0")
    case True
    then show ?thesis by (simp add: q_def normal_range_def)
  next
    case False
    then have "(1::rat) \<le> of_nat u" by simp
    then have "1 / 1073741824 \<le> q" by (simp add: q_def field_simps)
    then show ?thesis
      using q4 by (intro normal_range_wide) (simp_all add: two_powi_64 two_powi_m64)
  qed
  then have "round_double q = Some q"
  proof (rule round_double_exact [where m = "int u" and k = "- 30"])
    show "q = of_int (int u) * 2 powi (- 30)" by (rule qu)
    show "\<bar>int u\<bar> < 2 ^ 53" using assms by simp
  qed
  moreover have "0 \<le> \<lfloor>q\<rfloor>" "\<lfloor>q\<rfloor> \<le> 3"
    using q4 by (simp_all add: floor_le_iff)
  moreover have "int_of_double q = Some \<lfloor>q\<rfloor>"
    using q4 calculation(2,3) by (simp add: int_of_double_def truncate_double_def Let_def)
  ultimately show ?thesis
    by (simp add: double_mul_def q_def)
qed

subsection \<open>Flat site indices\<close>

lemma flat_index_bounds:
  assumes "0 < l" "0 \<le> x" "x < l" "0 \<le> y" "y < (l::int)"
  shows "0 \<le> x * l + y" "x * l + y < l * l"
proof -
  show "0 \<le> x * l + y" using assms by simp
  have "x * l + y < x * l + l" using assms by simp
  also have "\<dots> = (x + 1) * l" by (simp add: algebra_simps)
  also have "\<dots> \<le> l * l" using assms by (simp add: mult.commute mult_left_mono)
  finally show "x * l + y < l * l" .
qed

lemma flat_index_div_mod:
  assumes "0 < l" "0 \<le> y" "y < (l::int)"
  shows "(x * l + y) div l = x" "(x * l + y) mod l = y"
  using assms by simp_all

lemma flat_index_split:
  assumes "0 < l" "0 \<le> i" "i < l * (l::int)"
  shows "0 \<le> i div l" "i div l < l" "0 \<le> i mod l" "i mod l < l" "(i div l) * l + i mod l = i"
proof -
  show "0 \<le> i div l" using assms by (simp add: pos_imp_zdiv_nonneg_iff)
  have "l * (i div l) + i mod l = i" by simp
  moreover have "0 \<le> i mod l" using assms by simp
  ultimately have "l * (i div l) < l * l" using assms by linarith
  then show "i div l < l" using assms by (simp only: mult_less_cancel_left_pos)
  show "0 \<le> i mod l" "i mod l < l" using assms by simp_all
  show "(i div l) * l + i mod l = i" by simp
qed


subsection \<open>Consistency on the flat arrays\<close>

definition flat_consistent :: "int \<Rightarrow> int list \<Rightarrow> int list \<Rightarrow> int \<Rightarrow> bool" where
  "flat_consistent l S P n \<longleftrightarrow>
     (\<forall>i<length S. S ! i = MY_EMPTY
        \<or> (0 \<le> S ! i \<and> S ! i < n
            \<and> P ! nat (S ! i * DIM) = int i div l
            \<and> P ! nat (S ! i * DIM + 1) = int i mod l))"

lemma occupied_in_range:
  assumes "flat_consistent l S P n"
  shows "set (filter (\<lambda>p. p \<noteq> MY_EMPTY) S) \<subseteq> {0..<n}"
proof
  fix e assume "e \<in> set (filter (\<lambda>p. p \<noteq> MY_EMPTY) S)"
  then have "e \<in> set S" "e \<noteq> MY_EMPTY" by simp_all
  then obtain i where "i < length S" "S ! i = e" by (auto simp: in_set_conv_nth)
  with assms \<open>e \<noteq> MY_EMPTY\<close> show "e \<in> {0..<n}"
    by (auto simp: flat_consistent_def)
qed

lemma every_particle_on_a_site:
  assumes fc: "flat_consistent l S P n"
    and len: "int (length (filter (\<lambda>p. p \<noteq> MY_EMPTY) S)) = n"
    and dist: "distinct (filter (\<lambda>p. p \<noteq> MY_EMPTY) S)"
    and p: "0 \<le> p" "p < n"
  shows "\<exists>i<length S. S ! i = p"
proof -
  let ?occ = "filter (\<lambda>p. p \<noteq> MY_EMPTY) S"
  have sub: "set ?occ \<subseteq> {0..<n}" using fc by (rule occupied_in_range)
  have "card (set ?occ) = length ?occ" using dist by (rule distinct_card)
  also have "\<dots> = nat n" using len by simp
  also have "\<dots> = card {0..<n}" by simp
  finally have "set ?occ = {0..<n}"
    using sub by (intro card_subset_eq) simp_all
  with p have "p \<in> set ?occ" by simp
  then have "p \<in> set S" by simp
  then show ?thesis by (auto simp: in_set_conv_nth)
qed

lemma div_mod_eq_imp_eq:
  assumes "(a::int) div l = b div l" "a mod l = b mod l"
  shows "a = b"
  by (metis assms mult_div_mod_eq)

lemma hop_flat_consistent:
  assumes fc: "flat_consistent l S P n"
    and i: "i < length S" "S ! i = p" and j: "j < length S" "S ! j = MY_EMPTY"
    and p: "0 \<le> p" "p < n"
    and lenP: "nat (p * DIM + 1) < length P"
  shows "flat_consistent l (S[j := p, i := MY_EMPTY])
           (P[nat (p * DIM) := int j div l, nat (p * DIM + 1) := int j mod l]) n"
  unfolding flat_consistent_def
proof (intro allI impI)
  fix k assume "k < length (S[j := p, i := MY_EMPTY])"
  then have k: "k < length S" by simp
  let ?S = "S[j := p, i := MY_EMPTY]"
  let ?P = "P[nat (p * DIM) := int j div l, nat (p * DIM + 1) := int j mod l]"
  have ij: "i \<noteq> j" using i j p by (auto simp: MY_EMPTY_def)
  have idx: "nat (p * DIM) \<noteq> nat (p * DIM + 1)" "nat (p * DIM) < length P"
    using p lenP by (simp_all add: DIM_def)
  show "?S ! k = MY_EMPTY \<or> (0 \<le> ?S ! k \<and> ?S ! k < n
            \<and> ?P ! nat (?S ! k * DIM) = int k div l
            \<and> ?P ! nat (?S ! k * DIM + 1) = int k mod l)"
  proof (cases "k = i")
    case True
    then show ?thesis using i by simp
  next
    case ki: False
    show ?thesis
    proof (cases "k = j")
      case True
      then have "?S ! k = p" using j ij by simp
      moreover have "?P ! nat (p * DIM) = int j div l" using idx by simp
      moreover have "?P ! nat (p * DIM + 1) = int j mod l" using lenP by simp
      ultimately show ?thesis using p True by simp
    next
      case kj: False
      then have same: "?S ! k = S ! k" using ki by simp
      show ?thesis
      proof (cases "S ! k = MY_EMPTY")
        case True
        then show ?thesis using same by simp
      next
        case False
        then have q: "0 \<le> S ! k" "S ! k < n" "P ! nat (S ! k * DIM) = int k div l"
          "P ! nat (S ! k * DIM + 1) = int k mod l"
          using fc k by (auto simp: flat_consistent_def)
        have pi: "P ! nat (p * DIM) = int i div l" "P ! nat (p * DIM + 1) = int i mod l"
          using fc i p by (auto simp: flat_consistent_def MY_EMPTY_def)
        have "S ! k \<noteq> p"
        proof
          assume "S ! k = p"
          with q pi have "int k div l = int i div l" "int k mod l = int i mod l" by simp_all
          then have "int k = int i" by (rule div_mod_eq_imp_eq)
          with ki show False by simp
        qed
        then have "nat (S ! k * DIM) \<noteq> nat (p * DIM)" "nat (S ! k * DIM) \<noteq> nat (p * DIM + 1)"
          "nat (S ! k * DIM + 1) \<noteq> nat (p * DIM)" "nat (S ! k * DIM + 1) \<noteq> nat (p * DIM + 1)"
          using q p by (auto simp: DIM_def nat_eq_iff)
        then show ?thesis using same q by simp
      qed
    qed
  qed
qed

lemma hop_mset:
  assumes i: "i < length S" "S ! i = p" and j: "j < length S" "S ! j = MY_EMPTY" and ij: "i \<noteq> j"
  shows "mset (S[j := p, i := MY_EMPTY]) = mset S"
proof -
  have "mset (S[j := p]) = add_mset p (mset S - {#MY_EMPTY#})"
    using j by (simp add: mset_update)
  moreover have "S[j := p] ! i = p" using i ij by simp
  ultimately have "mset (S[j := p, i := MY_EMPTY]) =
      add_mset MY_EMPTY (add_mset p (mset S - {#MY_EMPTY#}) - {#p#})"
    using i by (simp add: mset_update)
  also have "\<dots> = add_mset MY_EMPTY (mset S - {#MY_EMPTY#})" by simp
  also have "\<dots> = mset S"
    using j by (metis insert_DiffM nth_mem_mset)
  finally show ?thesis .
qed

lemma occupied_mset:
  assumes "mset S' = mset S"
  shows "length (filter Q S') = length (filter Q S)"
    and "distinct (filter Q S') = distinct (filter Q S)"
proof -
  have m: "mset (filter Q S') = mset (filter Q S)"
    using assms by (simp only: mset_filter)
  show "length (filter Q S') = length (filter Q S)"
    using m by (metis size_mset)
  show "distinct (filter Q S') = distinct (filter Q S)"
    using m by (metis mset_eq_imp_distinct_iff)
qed

subsection \<open>The lattice record and its flat arrays\<close>

lemma array_get_Some:
  "0 \<le> i \<Longrightarrow> i < int (length a) \<Longrightarrow> array_get a i = Some (a ! nat i)"
  by (simp add: array_get_def)

lemma array_set_Some:
  "0 \<le> i \<Longrightarrow> i < int (length a) \<Longrightarrow> array_set a i v = Some (a[nat i := v])"
  by (simp add: array_set_def)

lemma array_get_SomeD:
  "array_get a i = Some v \<Longrightarrow> 0 \<le> i \<and> i < int (length a) \<and> a ! nat i = v"
  by (auto simp: array_get_def split: if_splits)

lemma occupied_le:
  "int (length (occupied lat)) \<le> int (length (particleOfSite lat))"
  by (simp add: occupied_def)

lemma lattice_ok_iff_flat:
  "lattice_ok lat n \<longleftrightarrow>
     lattice_allocated lat \<and> int (length (occupied lat)) = n \<and> distinct (occupied lat)
     \<and> flat_consistent (L lat) (particleOfSite lat) (positionOfParticle lat) n"
proof (cases "lattice_allocated lat \<and> int (length (occupied lat)) = n")
  case False
  then show ?thesis by (auto simp: lattice_ok_def)
next
  case True
  then have al: "lattice_allocated lat" and n: "int (length (occupied lat)) = n" by simp_all
  define l where "l = L lat"
  define S where "S = particleOfSite lat"
  define P where "P = positionOfParticle lat"
  have l: "0 < l" and lenS: "int (length S) = l * l" and lenP: "int (length P) = l * l * DIM"
    using al by (simp_all add: lattice_allocated_def l_def S_def P_def)
  have nV: "n \<le> l * l" using n occupied_le [of lat] lenS by (simp add: S_def)
  have pos_iff: "POS lat p mu = Some v \<longleftrightarrow> P ! nat (p * DIM + mu) = v"
    if "0 \<le> p" "p < n" "mu = 0 \<or> mu = 1" for p mu v
  proof -
    have "0 \<le> p * DIM + mu" "p * DIM + mu < int (length P)"
      using that nV lenP by (auto simp: DIM_def)
    then show ?thesis by (auto simp: POS_def P_def array_get_def)
  qed
  have "(\<forall>x \<in> {0..<l}. \<forall>y \<in> {0..<l}. site_consistent lat n x y) \<longleftrightarrow> flat_consistent l S P n"
  proof
    assume sc: "\<forall>x \<in> {0..<l}. \<forall>y \<in> {0..<l}. site_consistent lat n x y"
    show "flat_consistent l S P n"
      unfolding flat_consistent_def
    proof (intro allI impI)
      fix i assume "i < length S"
      then have i: "0 \<le> int i" "int i < l * l" using lenS by simp_all
      note sp = flat_index_split [OF l i]
      have "site_consistent lat n (int i div l) (int i mod l)"
        using sc sp by simp
      moreover have "SITE lat (int i div l) (int i mod l) = Some (S ! i)"
        using sp(5) i lenS by (simp add: SITE_def l_def [symmetric] S_def [symmetric] array_get_def)
      ultimately show "S ! i = MY_EMPTY \<or> (0 \<le> S ! i \<and> S ! i < n
            \<and> P ! nat (S ! i * DIM) = int i div l \<and> P ! nat (S ! i * DIM + 1) = int i mod l)"
        using pos_iff [of "S ! i" 0] pos_iff [of "S ! i" 1]
        by (auto simp: site_consistent_def)
    qed
  next
    assume fc: "flat_consistent l S P n"
    show "\<forall>x \<in> {0..<l}. \<forall>y \<in> {0..<l}. site_consistent lat n x y"
    proof (intro ballI)
      fix x y assume "x \<in> {0..<l}" "y \<in> {0..<l}"
      then have xy: "0 \<le> x" "x < l" "0 \<le> y" "y < l" by simp_all
      note b = flat_index_bounds [OF l xy]
      define i where "i = nat (x * l + y)"
      have i: "i < length S" "int i = x * l + y" using b lenS by (simp_all add: i_def)
      have site: "SITE lat x y = Some (S ! i)"
        using b lenS by (simp add: SITE_def l_def [symmetric] S_def [symmetric] array_get_def i_def)
      have dm: "int i div l = x" "int i mod l = y"
        using flat_index_div_mod [OF l xy(3,4), of x] i(2) by simp_all
      from fc i(1) have "S ! i = MY_EMPTY \<or> (0 \<le> S ! i \<and> S ! i < n
            \<and> P ! nat (S ! i * DIM) = int i div l \<and> P ! nat (S ! i * DIM + 1) = int i mod l)"
        by (simp add: flat_consistent_def)
      then show "site_consistent lat n x y"
        using pos_iff [of "S ! i" 0] pos_iff [of "S ! i" 1] dm
        by (auto simp: site_consistent_def site)
    qed
  qed
  then show ?thesis
    using True by (simp add: lattice_ok_def l_def S_def P_def)
qed

lemma neighbor_tables:
  assumes "lattice_allocated lat" "0 \<le> x" "x < L lat"
  shows "\<exists>nx. array_get (plusNeighbor lat) x = Some nx \<and> 0 \<le> nx \<and> nx < L lat"
    and "\<exists>nx. array_get (minusNeighbor lat) x = Some nx \<and> 0 \<le> nx \<and> nx < L lat"
proof -
  define l where "l = L lat"
  have l: "0 < l" using assms(1) by (simp add: lattice_allocated_def l_def)
  have x: "0 \<le> x" "x < l" using assms by (simp_all add: l_def)
  have len: "length [0..l - 1] = nat l" by simp
  have nth: "[0..l - 1] ! nat x = x" using x by (simp add: nth_upto)
  have "myInit_plusNeighbor l = Some (plusNeighbor lat)"
    using assms(1) by (simp add: lattice_allocated_def l_def)
  then have plus: "plusNeighbor lat = (map (\<lambda>i. i + 1) [0..l - 1])[nat (l - 1) := 0]"
    using l by (simp add: myInit_plusNeighbor_def array_set_def split: if_splits)
  have "myInit_minusNeighbor l = Some (minusNeighbor lat)"
    using assms(1) by (simp add: lattice_allocated_def l_def)
  then have minus: "minusNeighbor lat = (map (\<lambda>i. i - 1) [0..l - 1])[nat 0 := l - 1]"
    using l by (simp add: myInit_minusNeighbor_def array_set_def split: if_splits)
  have "plusNeighbor lat ! nat x = (if x = l - 1 then 0 else x + 1)"
    unfolding plus using x nth by (auto simp: nth_list_update nat_eq_iff)
  then show "\<exists>nx. array_get (plusNeighbor lat) x = Some nx \<and> 0 \<le> nx \<and> nx < L lat"
    using x by (auto simp: array_get_def plus l_def [symmetric])
  have "minusNeighbor lat ! nat x = (if x = 0 then l - 1 else x - 1)"
    unfolding minus using x nth by (auto simp: nth_list_update nat_eq_iff)
  then show "\<exists>nx. array_get (minusNeighbor lat) x = Some nx \<and> 0 \<le> nx \<and> nx < L lat"
    using x by (auto simp: array_get_def minus l_def [symmetric])
qed

subsection \<open>One hop\<close>

text \<open>The lattice after particle \<open>p\<close> has moved from the site with flat index \<open>i\<close> to \<open>j\<close>.\<close>

definition hop_result :: "lattice \<Rightarrow> nat \<Rightarrow> nat \<Rightarrow> int \<Rightarrow> int \<Rightarrow> int \<Rightarrow> lattice" where
  "hop_result lat i j p mu t =
     lat\<lparr>particleOfSite := (particleOfSite lat)[j := p, i := MY_EMPTY],
         positionOfParticle := (positionOfParticle lat)
            [nat (p * DIM) := int j div L lat, nat (p * DIM + 1) := int j mod L lat],
         truePositionOfParticle := (truePositionOfParticle lat)[nat (p * DIM + mu) := t]\<rparr>"

lemma hop_sequence:
  assumes al: "lattice_allocated lat"
    and p: "0 \<le> p" "p < L lat * L lat"
    and xy: "0 \<le> x" "x < L lat" "0 \<le> y" "y < L lat"
    and nxy: "0 \<le> nx" "nx < L lat" "0 \<le> ny" "ny < L lat"
    and mu: "mu = 0 \<or> mu = 1"
  shows "do {
           lat1 \<leftarrow> SITE_set lat nx ny p;
           lat2 \<leftarrow> SITE_set lat1 x y MY_EMPTY;
           lat3 \<leftarrow> POS_set lat2 p 0 nx;
           lat4 \<leftarrow> POS_set lat3 p 1 ny;
           t \<leftarrow> TRUE_POS lat4 p mu;
           lat5 \<leftarrow> TRUE_POS_set lat4 p mu (f t);
           k lat5
         } = k (hop_result lat (nat (x * L lat + y)) (nat (nx * L lat + ny)) p mu
                  (f (truePositionOfParticle lat ! nat (p * DIM + mu))))"
proof -
  define l where "l = L lat"
  have l: "0 < l" and lenS: "int (length (particleOfSite lat)) = l * l"
    and lenP: "int (length (positionOfParticle lat)) = l * l * DIM"
    and lenT: "int (length (truePositionOfParticle lat)) = l * l * DIM"
    using al by (simp_all add: lattice_allocated_def l_def)
  have bi: "0 \<le> x * l + y" "x * l + y < l * l"
    using flat_index_bounds [OF l] xy by (simp_all add: l_def)
  have bj: "0 \<le> nx * l + ny" "nx * l + ny < l * l"
    using flat_index_bounds [OF l] nxy by (simp_all add: l_def)
  have dm: "(nx * l + ny) div l = nx" "(nx * l + ny) mod l = ny"
    using flat_index_div_mod [OF l, of ny nx] nxy by (simp_all add: l_def)
  have bp: "0 \<le> p * DIM" "p * DIM + 1 < l * l * DIM" "0 \<le> p * DIM + mu" "p * DIM + mu < l * l * DIM"
    using p mu by (auto simp: DIM_def l_def)
  show ?thesis
    using bi bj bp lenS lenP lenT dm
    by (simp add: SITE_set_def POS_set_def TRUE_POS_def TRUE_POS_set_def array_set_def
        array_get_def hop_result_def l_def [symmetric])
qed

lemma hop_result_ok:
  assumes ok: "lattice_ok lat n"
    and p: "0 \<le> p" "p < n"
    and i: "i < length (particleOfSite lat)" "particleOfSite lat ! i = p"
    and j: "j < length (particleOfSite lat)" "particleOfSite lat ! j = MY_EMPTY"
    and mu: "mu = 0 \<or> mu = 1"
  shows "lattice_ok (hop_result lat i j p mu t) n"
proof -
  define S where "S = particleOfSite lat"
  define P where "P = positionOfParticle lat"
  have al: "lattice_allocated lat" and len: "int (length (occupied lat)) = n"
    and dist: "distinct (occupied lat)" and fc: "flat_consistent (L lat) S P n"
    using ok by (simp_all add: lattice_ok_iff_flat S_def P_def)
  have nV: "n \<le> L lat * L lat"
    using len occupied_le [of lat] al by (simp add: lattice_allocated_def)
  have lenP: "nat (p * DIM + 1) < length P"
    using al p nV by (simp add: lattice_allocated_def P_def DIM_def nat_less_iff)
  have ij: "i \<noteq> j" using i j p by (auto simp: MY_EMPTY_def)
  have m: "mset (S[j := p, i := MY_EMPTY]) = mset S"
    using i j ij unfolding S_def by (intro hop_mset)
  have "lattice_allocated (hop_result lat i j p mu t)"
    using al by (simp add: lattice_allocated_def hop_result_def)
  moreover have "int (length (occupied (hop_result lat i j p mu t))) = n"
    using occupied_mset(1) [OF m] len by (simp add: occupied_def hop_result_def S_def)
  moreover have "distinct (occupied (hop_result lat i j p mu t))"
    using occupied_mset(2) [OF m] dist by (simp add: occupied_def hop_result_def S_def)
  moreover have "flat_consistent (L lat) (S[j := p, i := MY_EMPTY])
      (P[nat (p * DIM) := int j div L lat, nat (p * DIM + 1) := int j mod L lat]) n"
    using fc i j p lenP unfolding S_def by (intro hop_flat_consistent) simp_all
  ultimately show ?thesis
    by (simp add: lattice_ok_iff_flat hop_result_def S_def P_def)
qed

subsection \<open>One attempt and the whole sweep\<close>

lemma call_myrand_eq:
  "call_myrand g =
     Some (of_nat (unat (spec_output (state (pcg32_random_state g)))) / 2 ^ 32,
       g\<lparr>pcg32_random_state := (pcg32_random_state g)
            \<lparr>state := spec_transition (inc' (pcg32_random_state g))
                        (state (pcg32_random_state g))\<rparr>,
         trace := trace g @ [Call Myrand]\<rparr>)"
  by (simp only: call_myrand_def myrand_eq bind.bind_lunit case_prod_conv)

lemma uniform_draw_range:
  fixes r :: uint32_t
  defines "v \<equiv> (of_nat (unat r) / 2 ^ 32 :: rat)"
  shows "0 \<le> v" "v \<le> 4294967295 / 4294967296" "v = 0 \<or> 1 / 4294967296 \<le> v"
proof -
  have u: "unat r < 2 ^ 32" using unsigned_less [of r] by simp
  then have "unat r \<le> 4294967295" by simp
  then have "(of_nat (unat r) :: rat) \<le> of_nat 4294967295" by (simp only: of_nat_le_iff)
  then have le: "(of_nat (unat r) :: rat) \<le> 4294967295" by simp
  show "0 \<le> v" unfolding v_def by (rule uniform_bounds)
  show "v \<le> 4294967295 / 4294967296"
    unfolding v_def using le by (simp add: field_simps)
  show "v = 0 \<or> 1 / 4294967296 \<le> v"
  proof (cases "unat r = 0")
    case True
    then show ?thesis by (simp add: v_def)
  next
    case False
    then have "1 \<le> unat r" by simp
    then have "(of_nat 1 :: rat) \<le> of_nat (unat r)" by (simp only: of_nat_le_iff)
    then have "(1 :: rat) \<le> of_nat (unat r)" by simp
    then have "1 / 4294967296 \<le> v" unfolding v_def by (simp add: field_simps)
    then show ?thesis by simp
  qed
qed

lemma updateLattice_attempt_ok:
  assumes ok: "lattice_ok lat n" and n: "0 < n"
  shows "\<exists>lat1 g1. updateLattice_attempt n (lat, g) = Some (lat1, g1)
           \<and> lattice_ok lat1 n
           \<and> zeroPositionOfParticle lat1 = zeroPositionOfParticle lat
           \<and> rng_state g1 = rng_state g
           \<and> trace g1 = trace g @ [Call Myrand, Call Myrand]"
proof -
  define S where "S = particleOfSite lat"
  define P where "P = positionOfParticle lat"
  define l where "l = L lat"
  have al: "lattice_allocated lat" and len: "int (length (occupied lat)) = n"
    and dist: "distinct (occupied lat)" and fc: "flat_consistent l S P n"
    using ok by (simp_all add: lattice_ok_iff_flat S_def P_def l_def)
  have l: "0 < l" and lenS: "int (length S) = l * l" and lenP: "int (length P) = l * l * DIM"
    and big: "l * l * DIM < 2 ^ 63"
    using al by (simp_all add: lattice_allocated_def l_def S_def P_def)
  have nV: "n \<le> l * l" using len occupied_le [of lat] lenS by (simp add: S_def)
  have n63: "n < 2 ^ 63" using nV big l by (simp add: DIM_def)
  \<comment> \<open>first draw and the particle\<close>
  define v1 :: rat where
    "v1 = of_nat (unat (spec_output (state (pcg32_random_state g)))) / 2 ^ 32"
  define g1 where "g1 = g\<lparr>pcg32_random_state := (pcg32_random_state g)
            \<lparr>state := spec_transition (inc' (pcg32_random_state g))
                        (state (pcg32_random_state g))\<rparr>,
         trace := trace g @ [Call Myrand]\<rparr>"
  have d1: "call_myrand g = Some (v1, g1)"
    unfolding v1_def g1_def by (rule call_myrand_eq)
  obtain p where pick: "do { m \<leftarrow> double_of_long n; prod \<leftarrow> double_mul v1 m;
      long_of_double prod } = Some p" and p: "0 \<le> p" "p < n"
    using pick_particle [OF n n63, of v1] uniform_draw_range unfolding v1_def by blast
  obtain i where i: "i < length S" "S ! i = p"
    using every_particle_on_a_site [OF fc _ _ p] len dist
    by (auto simp: occupied_def S_def)
  define x where "x = int i div l"
  define y where "y = int i mod l"
  have ib: "0 \<le> int i" "int i < l * l" using i(1) lenS by simp_all
  note sp = flat_index_split [OF l ib]
  have xy: "0 \<le> x" "x < l" "0 \<le> y" "y < l" and xyi: "x * l + y = int i"
    using sp by (simp_all add: x_def y_def)
  have Pp: "P ! nat (p * DIM) = x" "P ! nat (p * DIM + 1) = y"
    using fc i p by (auto simp: flat_consistent_def x_def y_def MY_EMPTY_def)
  have posx: "POS lat p 0 = Some x" and posy: "POS lat p 1 = Some y"
    using Pp p nV lenP by (simp_all add: POS_def array_get_def P_def [symmetric] DIM_def)
  \<comment> \<open>second draw and the direction\<close>
  define v2 :: rat where
    "v2 = of_nat (unat (spec_output (state (pcg32_random_state g1)))) / 2 ^ 32"
  define g2 where "g2 = g1\<lparr>pcg32_random_state := (pcg32_random_state g1)
            \<lparr>state := spec_transition (inc' (pcg32_random_state g1))
                        (state (pcg32_random_state g1))\<rparr>,
         trace := trace g1 @ [Call Myrand]\<rparr>"
  have d2: "call_myrand g1 = Some (v2, g2)"
    unfolding v2_def g2_def by (rule call_myrand_eq)
  have g2: "rng_state g2 = rng_state g" "trace g2 = trace g @ [Call Myrand, Call Myrand]"
    by (simp_all add: g2_def g1_def)
  obtain dir where dir: "do { d \<leftarrow> double_mul 4 v2; int_of_double d } = Some dir"
    and dr: "0 \<le> dir" "dir \<le> 3"
    using pick_direction [of "unat (spec_output (state (pcg32_random_state g1)))"]
      unsigned_less [of "spec_output (state (pcg32_random_state g1))"]
    unfolding v2_def by auto
  \<comment> \<open>the neighbour\<close>
  obtain nx where nx: "(if dir = 0 then array_get (plusNeighbor lat) x
                else if dir = 1 then array_get (minusNeighbor lat) x
                else Some x) = Some nx" "0 \<le> nx" "nx < l"
    using neighbor_tables [OF al, of x] xy
    by (cases "dir = 0"; cases "dir = 1") (auto simp: l_def)
  obtain ny where ny: "(if dir = 2 then array_get (plusNeighbor lat) y
                else if dir = 3 then array_get (minusNeighbor lat) y
                else Some y) = Some ny" "0 \<le> ny" "ny < l"
    using neighbor_tables [OF al, of y] xy
    by (cases "dir = 2"; cases "dir = 3") (auto simp: l_def)
  define j where "j = nat (nx * l + ny)"
  have jb: "0 \<le> nx * l + ny" "nx * l + ny < l * l"
    using flat_index_bounds [OF l nx(2,3) ny(2,3)] by simp_all
  have j: "j < length S" using jb lenS by (simp add: j_def)
  have site: "SITE lat nx ny = Some (S ! j)"
    using jb lenS by (simp add: SITE_def array_get_def l_def [symmetric] S_def [symmetric] j_def)
  define mu :: int where "mu = (if dir = 0 \<or> dir = 1 then 0 else 1)"
  have mu: "mu = 0 \<or> mu = 1" by (simp add: mu_def)
  define T where "T = truePositionOfParticle lat"
  define t where "t = (if dir = 0 \<or> dir = 2 then T ! nat (p * DIM + mu) + 1
                       else T ! nat (p * DIM + mu) - 1)"
  have steps: "updateLattice_attempt n (lat, g) =
      (if S ! j \<noteq> MY_EMPTY then Some (lat, g2)
       else Some (hop_result lat (nat (x * L lat + y)) (nat (nx * L lat + ny)) p mu t, g2))"
  proof -
    have pick': "double_of_long n \<bind> (\<lambda>m. double_mul v1 m \<bind> long_of_double) = Some p"
      using pick by simp
    obtain m prod where m: "double_of_long n = Some m" "double_mul v1 m = Some prod"
      "long_of_double prod = Some p"
      using pick' by (auto split: bind_splits)
    obtain d where d: "double_mul 4 v2 = Some d" "int_of_double d = Some dir"
      using dir by (auto split: bind_splits)
    have hs: "do {
           lat1 \<leftarrow> SITE_set lat nx ny p;
           lat2 \<leftarrow> SITE_set lat1 x y MY_EMPTY;
           lat3 \<leftarrow> POS_set lat2 p 0 nx;
           lat4 \<leftarrow> POS_set lat3 p 1 ny;
           t \<leftarrow> TRUE_POS lat4 p mu;
           lat5 \<leftarrow> TRUE_POS_set lat4 p mu (if dir = 0 \<or> dir = 2 then t + 1 else t - 1);
           Some (lat5, g2)
         } = Some (hop_result lat (nat (x * L lat + y)) (nat (nx * L lat + ny)) p mu t, g2)"
      using hop_sequence [OF al, of p x y nx ny mu
          "\<lambda>t. if dir = 0 \<or> dir = 2 then t + 1 else t - 1" "\<lambda>lat5. Some (lat5, g2)"]
        p nV xy nx(2,3) ny(2,3) mu
      by (simp add: l_def [symmetric] t_def T_def)
    show ?thesis
      unfolding updateLattice_attempt_def
      using dr
      by (simp only: case_prod_conv d1 m d posx posy d2 nx(1) ny(1) site hs mu_def [symmetric]
          bind.bind_lunit) auto
  qed
  show ?thesis
  proof (cases "S ! j = MY_EMPTY")
    case False
    then show ?thesis using steps ok g2 by simp
  next
    case True
    have "lattice_ok (hop_result lat i j p mu t) n"
      using ok p i j True mu unfolding S_def by (intro hop_result_ok)
    moreover have "nat (x * L lat + y) = i" "nat (nx * L lat + ny) = j"
      using xyi by (simp_all add: l_def [symmetric] j_def)
    moreover have "zeroPositionOfParticle (hop_result lat i j p mu t) = zeroPositionOfParticle lat"
      by (simp add: hop_result_def)
    ultimately show ?thesis using steps True g2 by simp
  qed
qed

lemma updateLattice_loop_ok:
  assumes "lattice_ok lat n" "0 < k \<longrightarrow> 0 < n"
  shows "\<exists>lat1 g1. updateLattice_loop k n (lat, g) = Some (lat1, g1)
           \<and> lattice_ok lat1 n
           \<and> zeroPositionOfParticle lat1 = zeroPositionOfParticle lat
           \<and> rng_state g1 = rng_state g
           \<and> trace g1 = trace g @ replicate (2 * k) (Call Myrand)"
  using assms
proof (induction k arbitrary: lat g)
  case 0
  then show ?case by simp
next
  case (Suc k)
  then have n: "0 < n" by simp
  obtain lat1 g1 where a: "updateLattice_attempt n (lat, g) = Some (lat1, g1)"
    "lattice_ok lat1 n" "zeroPositionOfParticle lat1 = zeroPositionOfParticle lat"
    "rng_state g1 = rng_state g" "trace g1 = trace g @ [Call Myrand, Call Myrand]"
    using updateLattice_attempt_ok [OF Suc.prems(1) n, of g] by blast
  obtain lat2 g2 where b: "updateLattice_loop k n (lat1, g1) = Some (lat2, g2)"
    "lattice_ok lat2 n" "zeroPositionOfParticle lat2 = zeroPositionOfParticle lat1"
    "rng_state g2 = rng_state g1" "trace g2 = trace g1 @ replicate (2 * k) (Call Myrand)"
    using Suc.IH [OF a(2), of g1] n by blast
  show ?case
    using a b by simp
qed


lemma example_lattice_ok: "lattice_ok example_lattice 1"
  by code_simp


subsection \<open>C10: a sweep preserves the consistency of the lattice\<close>

text \<open>
  C10. From every lattice state that \<open>myInit\<close> has allocated and in which exactly \<open>trueN\<close>
  sites are occupied, each by a distinct particle index \<open>p\<close> in \<open>[0, trueN)\<close> whose \<open>POS\<close>
  entries are the coordinates of its site, \<open>updateLattice(trueN)\<close> completes (no access
  out of range, no \<open>exit\<close>), the state it leaves satisfies the same predicate, and
  \<open>zeroPositionOfParticle\<close> is unchanged.
\<close>

theorem C10_updateLattice_preserves_consistency:
  assumes "lattice_ok lat trueN"
  shows "\<exists>lat1 g1. updateLattice trueN (lat, g) = Some (lat1, g1)
           \<and> lattice_ok lat1 trueN
           \<and> zeroPositionOfParticle lat1 = zeroPositionOfParticle lat"
proof -
  have "0 < nat trueN \<longrightarrow> 0 < trueN" by simp
  from updateLattice_loop_ok [OF assms this, of g]
  show ?thesis unfolding updateLattice_def by blast
qed

theorem C10_updateLattice_preserves_consistency_witness:
  "lattice_ok example_lattice 1
   \<and> (\<exists>lat1 g1. updateLattice 1 (example_lattice, example_globals) = Some (lat1, g1)
         \<and> lattice_ok lat1 1
         \<and> zeroPositionOfParticle lat1 = zeroPositionOfParticle example_lattice)"
  using C10_updateLattice_preserves_consistency [OF example_lattice_ok, of example_globals]
    example_lattice_ok
  by simp

section \<open>The three programs\<close>

text \<open>
  A counted loop \<open>for (i = start; ...; i++)\<close> that runs \<open>k\<close> times: the body gets the
  loop variable and the state, and the loop stops at the first body that does not
  complete.
\<close>

fun for_loop :: "nat \<Rightarrow> int \<Rightarrow> (int \<Rightarrow> 's \<Rightarrow> 's option) \<Rightarrow> 's \<Rightarrow> 's option" where
  "for_loop 0 i body s = Some s"
| "for_loop (Suc k) i body s = do { s1 \<leftarrow> body i s; for_loop k (i + 1) body s1 }"

text \<open>
  The \<open>main\<close> functions are modelled up to the end of their run loops: what follows
  (reading the data file back, means and variances, the output table) makes no call
  to the generators, and \<open>EXIT_SUCCESS\<close> stands for reaching the end of the run loop.
  Memory allocation and \<open>fopen\<close> are taken to succeed when \<open>io_ok\<close> holds for the run;
  when it fails, \<open>main\<close> returns \<open>EXIT_FAILURE\<close> at once. The walkers' positions are
  \<open>int\<close>s. What a loop body computes only to print it, as \<open>pos_sqr\<close>, \<open>time\<close> and the
  sums of positions, is left out, so an overflow of \<open>position * position\<close> in a 1D walk that
  strays further than 46340 from the origin is not modelled.
\<close>

datatype exit_status = EXIT_SUCCESS | EXIT_FAILURE

text \<open>The globals when a program starts: the initializer of \<open>rng_state\<close>, zeros, no call yet.\<close>

definition program_start :: rng_globals where
  "program_start =
     \<lparr>rng_state = rng_state_initial, pcg32_random_state = \<lparr>state = 0, inc' = 0\<rparr>, trace = []\<rparr>"

definition begin_run :: "int \<Rightarrow> rng_globals \<Rightarrow> rng_globals" where
  "begin_run run g = g\<lparr>trace := trace g @ [Run_begin (nat run)]\<rparr>"

subsection \<open>The 1D walk (main\_dat.c with 01\_1d\_random\_walk/src/seed\_generator.c)\<close>

definition call_myrand_init_1d ::
  "rng_globals \<Rightarrow> uint64_t \<Rightarrow> uint64_t \<Rightarrow> rng_globals option" where
  "call_myrand_init_1d g initstate initseq =
     do {
       w \<leftarrow> myrand_init_1d (pcg32_random_state g) initstate initseq;
       Some (g\<lparr>pcg32_random_state := w,
               trace := trace g @ [Call (Myrand_init initstate initseq)]\<rparr>)
     }"

definition call_myrand_1d :: "rng_globals \<Rightarrow> (double \<times> rng_globals) option" where
  "call_myrand_1d g =
     do {
       (v, w) \<leftarrow> myrand_1d (pcg32_random_state g);
       Some (v, g\<lparr>pcg32_random_state := w, trace := trace g @ [Call Myrand]\<rparr>)
     }"

text \<open>The body of the inner loop: one draw, one step of the walker.\<close>

definition walk_step_1d :: "int \<Rightarrow> int \<times> rng_globals \<Rightarrow> (int \<times> rng_globals) option" where
  "walk_step_1d i = (\<lambda>(position, g).
     do {
       (a, g1) \<leftarrow> call_myrand_1d g;
       Some (if 1 / 2 < a then position + 1 else position - 1, g1)
     })"

text \<open>
  The body of the run loop. The result \<open>Inl\<close> is an early \<open>return EXIT_FAILURE\<close> from
  \<open>main\<close>, \<open>Inr\<close> the normal end of the iteration.
\<close>

definition run_1d ::
  "(nat \<Rightarrow> bool) \<Rightarrow> int \<Rightarrow> int \<Rightarrow> rng_globals \<Rightarrow> (rng_globals + rng_globals) option" where
  "run_1d io_ok iterations run g =
     do {
       (seed1, g1) \<leftarrow> call_generate_seed (begin_run run g);
       (seed2, g2) \<leftarrow> call_generate_seed g1;
       g3 \<leftarrow> call_myrand_init_1d g2 (ucast seed1) (ucast seed2);
       if \<not> io_ok (nat run) then Some (Inl g3)
       else do {
         (position, g4) \<leftarrow> for_loop (nat iterations) 0 walk_step_1d (0, g3);
         Some (Inr g4)
       }
     }"

fun run_loop_1d ::
  "nat \<Rightarrow> int \<Rightarrow> (nat \<Rightarrow> bool) \<Rightarrow> int \<Rightarrow> rng_globals \<Rightarrow> (exit_status \<times> rng_globals) option" where
  "run_loop_1d 0 run io_ok iterations g = Some (EXIT_SUCCESS, g)"
| "run_loop_1d (Suc k) run io_ok iterations g =
     do {
       r \<leftarrow> run_1d io_ok iterations run g;
       case r of
         Inl g1 \<Rightarrow> Some (EXIT_FAILURE, g1)
       | Inr g1 \<Rightarrow> run_loop_1d k (run + 1) io_ok iterations g1
     }"

definition main_1d ::
  "(nat \<Rightarrow> bool) \<Rightarrow> int \<Rightarrow> int \<Rightarrow> rng_globals \<Rightarrow> (exit_status \<times> rng_globals) option" where
  "main_1d io_ok runs iterations g =
     do {
       g1 \<leftarrow> call_seedgen_init g 12345 67890;
       run_loop_1d (nat runs) 0 io_ok iterations g1
     }"

subsection \<open>The 2D walk (2d\_ran\_walk.c with 02\_2d\_random\_walk/src/seed\_generator.c)\<close>

definition call_seedgen_init_2d :: "rng_globals \<Rightarrow> uint64_t \<Rightarrow> uint64_t \<Rightarrow> rng_globals option" where
  "call_seedgen_init_2d g st seq =
     do {
       m \<leftarrow> seedgen_init_2d (rng_state g) st seq;
       Some (g\<lparr>rng_state := m, trace := trace g @ [Call (Seedgen_init st seq)]\<rparr>)
     }"

definition call_generate_seed_2d :: "rng_globals \<Rightarrow> (uint32_t \<times> rng_globals) option" where
  "call_generate_seed_2d g =
     do {
       (seed, m) \<leftarrow> generate_seed_2d (rng_state g);
       Some (seed, g\<lparr>rng_state := m, trace := trace g @ [Call (Generate_seed seed)]\<rparr>)
     }"

definition call_myrand_init_2d ::
  "rng_globals \<Rightarrow> uint64_t \<Rightarrow> uint64_t \<Rightarrow> rng_globals option" where
  "call_myrand_init_2d g initstate initseq =
     do {
       w \<leftarrow> myrand_init_2d (pcg32_random_state g) initstate initseq;
       Some (g\<lparr>pcg32_random_state := w,
               trace := trace g @ [Call (Myrand_init initstate initseq)]\<rparr>)
     }"

definition call_myrand_2d :: "rng_globals \<Rightarrow> (double \<times> rng_globals) option" where
  "call_myrand_2d g =
     do {
       (v, w) \<leftarrow> myrand_2d (pcg32_random_state g);
       Some (v, g\<lparr>pcg32_random_state := w, trace := trace g @ [Call Myrand]\<rparr>)
     }"

text \<open>The struct \<open>strc\<close> of \<open>main\<close>, without the counters \<open>step\<close> and \<open>time\<close>.\<close>

definition walk_step_2d ::
  "int \<Rightarrow> (int \<times> int) \<times> rng_globals \<Rightarrow> ((int \<times> int) \<times> rng_globals) option" where
  "walk_step_2d step = (\<lambda>((x, y), g).
     do {
       (r, g1) \<leftarrow> call_myrand_2d g;
       Some (if r < 1 / 4 then (x + 1, y)
             else if r < 1 / 2 then (x - 1, y)
             else if r < 3 / 4 then (x, y + 1)
             else (x, y - 1), g1)
     })"

text \<open>
  Here \<open>fopen\<close> comes first in the iteration, before the seeds are drawn; the run is
  recorded as begun once its file is open.
\<close>

definition run_2d ::
  "(nat \<Rightarrow> bool) \<Rightarrow> int \<Rightarrow> int \<Rightarrow> rng_globals \<Rightarrow> (rng_globals + rng_globals) option" where
  "run_2d io_ok iterations run g =
     (if \<not> io_ok (nat run) then Some (Inl g)
      else do {
        (seed1, g1) \<leftarrow> call_generate_seed_2d (begin_run run g);
        (seed2, g2) \<leftarrow> call_generate_seed_2d g1;
        g3 \<leftarrow> call_myrand_init_2d g2 (ucast seed1) (ucast seed2);
        (pos, g4) \<leftarrow> for_loop (nat iterations) 0 walk_step_2d ((0, 0), g3);
        Some (Inr g4)
      })"

fun run_loop_2d ::
  "nat \<Rightarrow> int \<Rightarrow> (nat \<Rightarrow> bool) \<Rightarrow> int \<Rightarrow> rng_globals \<Rightarrow> (exit_status \<times> rng_globals) option" where
  "run_loop_2d 0 run io_ok iterations g = Some (EXIT_SUCCESS, g)"
| "run_loop_2d (Suc k) run io_ok iterations g =
     do {
       r \<leftarrow> run_2d io_ok iterations run g;
       case r of
         Inl g1 \<Rightarrow> Some (EXIT_FAILURE, g1)
       | Inr g1 \<Rightarrow> run_loop_2d k (run + 1) io_ok iterations g1
     }"

text \<open>\<open>runs\<close>, \<open>iterations\<close> and \<open>t_target\<close> are read from the standard input and must be positive.\<close>

definition main_2d ::
  "(nat \<Rightarrow> bool) \<Rightarrow> int \<Rightarrow> int \<Rightarrow> int \<Rightarrow> rng_globals \<Rightarrow> (exit_status \<times> rng_globals) option" where
  "main_2d io_ok runs iterations t_target g =
     do {
       g1 \<leftarrow> call_seedgen_init_2d g 12345 67890;
       if runs \<le> 0 \<or> iterations \<le> 0 \<or> t_target \<le> 0 then Some (EXIT_FAILURE, g1)
       else run_loop_2d (nat runs) 0 io_ok iterations g1
     }"

subsection \<open>The lattice gas (diff\_coef.c with pcg32.c)\<close>

text \<open>
  Modelled from the spec: 03\_diffusion\_coefficient/src/seed\_generator.c is not among
  the sources; its header seed\_generator.h is, and declares \<open>seedgen_init\<close> and
  \<open>generate_seed\<close>. By the specification (sections 2 and 4.2) the master is an instance
  of the core engine, and \<open>seedgen_init(state, seq)\<close> is \<open>seed(initstate, initseq)\<close> on it:
  the increment becomes \<open>(initseq << 1) | 1\<close>, the state 0, one transition, \<open>initstate\<close>
  added, one more transition.
\<close>

definition seedgen_init_gas ::
  "pcg32_random_t \<Rightarrow> uint64_t \<Rightarrow> uint64_t \<Rightarrow> pcg32_random_t option" where
  "seedgen_init_gas rng initstate initseq =
     Some \<lparr>state = spec_transition (push_bit 1 initseq OR 1)
                     (spec_transition (push_bit 1 initseq OR 1) 0 + initstate),
           inc' = push_bit 1 initseq OR 1\<rparr>"

text \<open>
  Modelled from the spec: \<open>generate_seed()\<close> of the same absent file is \<open>next_u32\<close> on the
  master (section 4.2): the output of the state before the transition.
\<close>

definition generate_seed_gas :: "pcg32_random_t \<Rightarrow> (uint32_t \<times> pcg32_random_t) option" where
  "generate_seed_gas rng =
     Some (spec_output (state rng), rng\<lparr>state := spec_transition (inc' rng) (state rng)\<rparr>)"

text \<open>The two calls as diff\_coef.c makes them, on the globals.\<close>

definition call_seedgen_init_gas ::
  "rng_globals \<Rightarrow> uint64_t \<Rightarrow> uint64_t \<Rightarrow> rng_globals option" where
  "call_seedgen_init_gas g st seq =
     do {
       m \<leftarrow> seedgen_init_gas (rng_state g) st seq;
       Some (g\<lparr>rng_state := m, trace := trace g @ [Call (Seedgen_init st seq)]\<rparr>)
     }"

definition call_generate_seed_gas :: "rng_globals \<Rightarrow> (uint32_t \<times> rng_globals) option" where
  "call_generate_seed_gas g =
     do {
       (seed, m) \<leftarrow> generate_seed_gas (rng_state g);
       Some (seed, g\<lparr>rng_state := m, trace := trace g @ [Call (Generate_seed seed)]\<rparr>)
     }"

text \<open>The integer division of C, which truncates towards zero.\<close>

definition c_div :: "int \<Rightarrow> int \<Rightarrow> int" where
  "c_div a b = sgn a * sgn b * (\<bar>a\<bar> div \<bar>b\<bar>)"

text \<open>
  \<open>myInit\<close>: the arrays come from \<open>malloc\<close>, which is taken to succeed; their first
  contents are indeterminate and stand here as the value \<open>junk\<close> in every cell. The
  arrays of measurements are left out: no function of the model reads them.
  \<open>num_measurements\<close> is 100 and \<open>measurement_period\<close> is \<open>num_sweeps / 100\<close>, as \<open>main\<close>
  sets them. The result \<open>Inl\<close> is the call \<open>exit(EXIT_FAILURE)\<close>. A lattice whose arrays
  would not fit in \<open>2 ^ 63\<close> bytes is outside the model.
\<close>

definition myInit :: "int \<Rightarrow> int \<Rightarrow> int \<Rightarrow> (exit_status + lattice) option" where
  "myInit l num_sweeps junk =
     (if 2 ^ 63 \<le> l * l * DIM * 8 then None
      else do {
        plus \<leftarrow> myInit_plusNeighbor l;
        minus \<leftarrow> myInit_minusNeighbor l;
        if 100 * c_div num_sweeps 100 \<noteq> num_sweeps then Some (Inl EXIT_FAILURE)
        else Some (Inr \<lparr>L = l,
                   particleOfSite = replicate (nat (l * l)) junk,
                   positionOfParticle = replicate (nat (l * l * DIM)) junk,
                   zeroPositionOfParticle = replicate (nat (l * l * DIM)) junk,
                   truePositionOfParticle = replicate (nat (l * l * DIM)) junk,
                   plusNeighbor = plus,
                   minusNeighbor = minus\<rparr>)
      })"

text \<open>\<open>initLattice\<close>: the body of the second pair of loops, at the site \<open>(x, y)\<close>.\<close>

definition initLattice_site ::
  "double \<Rightarrow> int \<Rightarrow> int \<Rightarrow> int \<times> lattice \<times> rng_globals \<Rightarrow> (int \<times> lattice \<times> rng_globals) option" where
  "initLattice_site rho x y = (\<lambda>(trueN, lat, g).
     do {
       (r, g1) \<leftarrow> call_myrand g;
       if r < rho then
         do {
           lat1 \<leftarrow> SITE_set lat x y trueN;
           lat2 \<leftarrow> POS_set lat1 trueN 0 x;
           lat3 \<leftarrow> POS_set lat2 trueN 1 y;
           lat4 \<leftarrow> ZERO_POS_set lat3 trueN 0 x;
           lat5 \<leftarrow> ZERO_POS_set lat4 trueN 1 y;
           lat6 \<leftarrow> TRUE_POS_set lat5 trueN 0 x;
           lat7 \<leftarrow> TRUE_POS_set lat6 trueN 1 y;
           Some (trueN + 1, lat7, g1)
         }
       else Some (trueN, lat, g1)
     })"

definition initLattice :: "double \<Rightarrow> lattice \<times> rng_globals \<Rightarrow> (int \<times> lattice \<times> rng_globals) option" where
  "initLattice rho = (\<lambda>(lat, g).
     do {
       lat1 \<leftarrow> for_loop (nat (L lat)) 0
                 (\<lambda>x. for_loop (nat (L lat)) 0 (\<lambda>y lat0. SITE_set lat0 x y MY_EMPTY)) lat;
       for_loop (nat (L lat)) 0
         (\<lambda>x. for_loop (nat (L lat)) 0 (\<lambda>y. initLattice_site rho x y)) (0, lat1, g)
     })"

text \<open>
  The body of the sample loop of \<open>main\<close>, without the calls of \<open>measure\<close>, which reads
  the positions and changes neither the lattice nor a generator.
\<close>

definition sample_diff_coef ::
  "double \<Rightarrow> int \<Rightarrow> int \<Rightarrow> lattice \<times> rng_globals \<Rightarrow> (lattice \<times> rng_globals) option" where
  "sample_diff_coef rho num_sweeps sample = (\<lambda>(lat, g).
     do {
       (trueN, lat1, g1) \<leftarrow> initLattice rho (lat, begin_run sample g);
       for_loop (nat num_sweeps) 1 (\<lambda>sweep. updateLattice trueN) (lat1, g1)
     })"

text \<open>
  \<open>main\<close> of diff\_coef.c from the seeding on. A failure of \<open>fopen\<close> ends the program
  before the first sample.
\<close>

definition main_diff_coef ::
  "bool \<Rightarrow> int \<Rightarrow> double \<Rightarrow> int \<Rightarrow> int \<Rightarrow> int \<Rightarrow> rng_globals
     \<Rightarrow> (exit_status \<times> rng_globals) option" where
  "main_diff_coef fopen_ok l rho num_sweeps num_samples junk g =
     do {
       g1 \<leftarrow> call_seedgen_init_gas g 12345 67890;
       (seed1, g2) \<leftarrow> call_generate_seed_gas g1;
       (seed2, g3) \<leftarrow> call_generate_seed_gas g2;
       g4 \<leftarrow> call_myrand_init g3 (ucast seed1) (ucast seed2);
       r \<leftarrow> myInit l num_sweeps junk;
       case r of
         Inl status \<Rightarrow> Some (status, g4)
       | Inr lat \<Rightarrow>
           if \<not> fopen_ok then Some (EXIT_FAILURE, g4)
           else do {
             (lat1, g5) \<leftarrow>
               for_loop (nat num_samples) 0 (sample_diff_coef rho num_sweeps) (lat, g4);
             Some (EXIT_SUCCESS, g5)
           }
     }"

subsection \<open>The calls of one run\<close>

text \<open>
  The events of run \<open>r\<close>: those after \<open>Run_begin r\<close>, up to the next beginning of a run.
  A run is freshly seeded when they are two calls of \<open>generate_seed\<close>, then the call of
  \<open>myrand_init\<close> with the two seeds, then calls of \<open>myrand\<close> only.
\<close>

fun is_Run_begin :: "event \<Rightarrow> bool" where
  "is_Run_begin (Run_begin r) = True"
| "is_Run_begin (Call c) = False"

definition run_segment :: "nat \<Rightarrow> event list \<Rightarrow> event list" where
  "run_segment r tr =
     takeWhile (\<lambda>e. \<not> is_Run_begin e) (drop 1 (dropWhile (\<lambda>e. e \<noteq> Run_begin r) tr))"

fun freshly_seeded :: "event list \<Rightarrow> bool" where
  "freshly_seeded (Call (Generate_seed a) # Call (Generate_seed b) # Call (Myrand_init x y) # draws) =
     (x = ucast a \<and> y = ucast b \<and> list_all (\<lambda>e. e = Call Myrand) draws)"
| "freshly_seeded seg = False"

text \<open>The runs that a trace begins.\<close>

definition runs_begun :: "event list \<Rightarrow> nat list" where
  "runs_begun tr = concat (map (\<lambda>e. case e of Run_begin r \<Rightarrow> [r] | Call c \<Rightarrow> []) tr)"

subsection \<open>Segments of a trace\<close>

lemma run_segment_last:
  assumes "Run_begin r \<notin> set xs" "\<forall>e \<in> set body. \<not> is_Run_begin e"
  shows "run_segment r (xs @ Run_begin r # body) = body"
proof -
  have "dropWhile (\<lambda>e. e \<noteq> Run_begin r) (xs @ Run_begin r # body) = Run_begin r # body"
    using assms(1) by (auto simp: dropWhile_append3)
  then show ?thesis
    using assms(2) by (simp add: run_segment_def)
qed

lemma run_segment_earlier:
  assumes "Run_begin r \<in> set xs"
  shows "run_segment r (xs @ Run_begin q # ys) = run_segment r xs"
proof -
  define d where "d = dropWhile (\<lambda>e. e \<noteq> Run_begin r) xs"
  have "\<exists>x \<in> set xs. \<not> x \<noteq> Run_begin r" using assms by auto
  then have "dropWhile (\<lambda>e. e \<noteq> Run_begin r) (xs @ Run_begin q # ys) = d @ Run_begin q # ys"
    unfolding d_def by (simp add: dropWhile_append1)
  moreover have "d \<noteq> []" using assms unfolding d_def by (auto simp: dropWhile_eq_Nil_conv)
  then have "drop 1 (d @ Run_begin q # ys) = drop 1 d @ Run_begin q # ys"
    by (cases d) simp_all
  ultimately have "run_segment r (xs @ Run_begin q # ys) =
      takeWhile (\<lambda>e. \<not> is_Run_begin e) (drop 1 d @ Run_begin q # ys)"
    by (simp only: run_segment_def)
  also have "\<dots> = takeWhile (\<lambda>e. \<not> is_Run_begin e) (drop 1 d)"
    by (rule takeWhile_tail) simp
  finally show ?thesis by (simp add: run_segment_def d_def)
qed

lemma runs_begun_append: "runs_begun (xs @ ys) = runs_begun xs @ runs_begun ys"
  by (simp add: runs_begun_def)

lemma runs_begun_calls:
  assumes "\<forall>e \<in> set body. \<not> is_Run_begin e"
  shows "runs_begun body = []"
  using assms by (induction body) (auto simp: runs_begun_def split: event.splits)

lemma runs_begun_mem: "r \<in> set (runs_begun tr) \<longleftrightarrow> Run_begin r \<in> set tr"
  by (induction tr) (auto simp: runs_begun_def split: event.splits)

text \<open>One more run at the end of a trace whose runs are all freshly seeded.\<close>

lemma freshly_seeded_extend:
  assumes old: "\<forall>r \<in> set (runs_begun tr). r < q \<and> freshly_seeded (run_segment r tr)"
    and body: "\<forall>e \<in> set body. \<not> is_Run_begin e" "freshly_seeded body"
  shows "\<forall>r \<in> set (runs_begun (tr @ Run_begin q # body)).
           r < Suc q \<and> freshly_seeded (run_segment r (tr @ Run_begin q # body))"
proof
  fix r assume "r \<in> set (runs_begun (tr @ Run_begin q # body))"
  then have "r \<in> set (runs_begun tr) \<or> r = q"
    using runs_begun_calls [OF body(1)]
    by (auto simp: runs_begun_append) (simp add: runs_begun_def)
  then show "r < Suc q \<and> freshly_seeded (run_segment r (tr @ Run_begin q # body))"
  proof
    assume r: "r \<in> set (runs_begun tr)"
    then have "Run_begin r \<in> set tr" by (simp add: runs_begun_mem)
    then have "run_segment r (tr @ Run_begin q # body) = run_segment r tr"
      by (rule run_segment_earlier)
    with old r show ?thesis by auto
  next
    assume r: "r = q"
    have "Run_begin q \<notin> set tr" using old by (auto simp: runs_begun_mem [symmetric])
    then have "run_segment q (tr @ Run_begin q # body) = body"
      using body(1) by (rule run_segment_last)
    with body(2) r show ?thesis by simp
  qed
qed

subsection \<open>The calls in closed form\<close>

lemma call_seedgen_init_default:
  "call_seedgen_init program_start 12345 67890 =
     Some \<lparr>rng_state = \<lparr>state = 10079894750844561963, inc' = 135781\<rparr>,
           pcg32_random_state = \<lparr>state = 0, inc' = 0\<rparr>,
           trace = [Call (Seedgen_init 12345 67890)]\<rparr>"
  by (simp add: call_seedgen_init_def program_start_def default_master)

lemma call_generate_seed_eq:
  "call_generate_seed g =
     Some (spec_output (state (rng_state g)),
       g\<lparr>rng_state := (rng_state g)
            \<lparr>state := state (rng_state g) * 6364136223846793005 + inc' (rng_state g)\<rparr>,
         trace := trace g @ [Call (Generate_seed (spec_output (state (rng_state g))))]\<rparr>)"
  by (simp only: call_generate_seed_def generate_seed_eq bind.bind_lunit case_prod_conv)

lemma call_myrand_init_eq:
  "call_myrand_init g a b =
     Some (g\<lparr>pcg32_random_state :=
               \<lparr>state = spec_transition (push_bit 1 b OR 1)
                          (spec_transition (push_bit 1 b OR 1) 0 + a),
                inc' = push_bit 1 b OR 1\<rparr>,
             trace := trace g @ [Call (Myrand_init a b)]\<rparr>)"
  by (simp only: call_myrand_init_def myrand_init_def pcg32_srandom_r_eq bind.bind_lunit)

lemma call_myrand_init_1d_eq:
  "call_myrand_init_1d g a b =
     Some (g\<lparr>pcg32_random_state :=
               \<lparr>state = spec_transition (push_bit 1 b OR 1)
                          (spec_transition (push_bit 1 b OR 1) 0 + a),
                inc' = push_bit 1 b OR 1\<rparr>,
             trace := trace g @ [Call (Myrand_init a b)]\<rparr>)"
  by (simp only: call_myrand_init_1d_def myrand_init_1d_def pcg32_srandom_r_1d_eq
      bind.bind_lunit)

lemma call_myrand_1d_eq:
  "call_myrand_1d g =
     Some (of_nat (unat (spec_output (state (pcg32_random_state g)))) / 2 ^ 32,
       g\<lparr>pcg32_random_state := (pcg32_random_state g)
            \<lparr>state := spec_transition (inc' (pcg32_random_state g))
                        (state (pcg32_random_state g))\<rparr>,
         trace := trace g @ [Call Myrand]\<rparr>)"
  by (simp only: call_myrand_1d_def myrand_1d_eq bind.bind_lunit case_prod_conv)

lemma call_seedgen_init_2d_default:
  "call_seedgen_init_2d program_start 12345 67890 =
     Some \<lparr>rng_state = \<lparr>state = 10079894750844561963, inc' = 135781\<rparr>,
           pcg32_random_state = \<lparr>state = 0, inc' = 0\<rparr>,
           trace = [Call (Seedgen_init 12345 67890)]\<rparr>"
  by (simp add: call_seedgen_init_2d_def program_start_def seedgen_init_2d_def
      pcg32_srandom_2d_eq spec_transition_def)

lemma call_generate_seed_2d_eq:
  "call_generate_seed_2d g =
     Some (spec_output (state (rng_state g)),
       g\<lparr>rng_state := (rng_state g)
            \<lparr>state := state (rng_state g) * 6364136223846793005 + inc' (rng_state g)\<rparr>,
         trace := trace g @ [Call (Generate_seed (spec_output (state (rng_state g))))]\<rparr>)"
  by (simp only: call_generate_seed_2d_def generate_seed_2d_def pcg32_random_2d_eq
      bind.bind_lunit case_prod_conv)

lemma call_myrand_init_2d_eq:
  "call_myrand_init_2d g a b =
     Some (g\<lparr>pcg32_random_state :=
               \<lparr>state = spec_transition (push_bit 1 b OR 1)
                          (spec_transition (push_bit 1 b OR 1) 0 + a),
                inc' = push_bit 1 b OR 1\<rparr>,
             trace := trace g @ [Call (Myrand_init a b)]\<rparr>)"
  by (simp only: call_myrand_init_2d_def myrand_init_2d_def pcg32_srandom_r_2d_eq
      bind.bind_lunit)

lemma call_myrand_2d_eq:
  "call_myrand_2d g =
     Some (of_nat (unat (spec_output (state (pcg32_random_state g)))) / 2 ^ 32,
       g\<lparr>pcg32_random_state := (pcg32_random_state g)
            \<lparr>state := spec_transition (inc' (pcg32_random_state g))
                        (state (pcg32_random_state g))\<rparr>,
         trace := trace g @ [Call Myrand]\<rparr>)"
  by (simp only: call_myrand_2d_def myrand_2d_eq bind.bind_lunit case_prod_conv)

subsection \<open>The walks draw from the worker only\<close>

lemma walk_1d_trace:
  "\<exists>position1 g1. for_loop k i walk_step_1d (position, g) = Some (position1, g1)
     \<and> trace g1 = trace g @ replicate k (Call Myrand)"
proof (induction k arbitrary: i position g)
  case 0
  show ?case by simp
next
  case (Suc k)
  obtain p1 g1 where s: "walk_step_1d i (position, g) = Some (p1, g1)"
    "trace g1 = trace g @ [Call Myrand]"
    by (simp add: walk_step_1d_def call_myrand_1d_eq)
  from Suc [of "i + 1" p1 g1] obtain p2 g2
    where r: "for_loop k (i + 1) walk_step_1d (p1, g1) = Some (p2, g2)"
      "trace g2 = trace g1 @ replicate k (Call Myrand)" by blast
  show ?case using s r by (simp add: replicate_app_Cons_same)
qed

lemma walk_2d_trace:
  "\<exists>pos1 g1. for_loop k i walk_step_2d (pos, g) = Some (pos1, g1)
     \<and> trace g1 = trace g @ replicate k (Call Myrand)"
proof (induction k arbitrary: i pos g)
  case 0
  show ?case by simp
next
  case (Suc k)
  obtain p1 g1 where s: "walk_step_2d i (pos, g) = Some (p1, g1)"
    "trace g1 = trace g @ [Call Myrand]"
    by (cases pos) (simp add: walk_step_2d_def call_myrand_2d_eq)
  from Suc [of "i + 1" p1 g1] obtain p2 g2
    where r: "for_loop k (i + 1) walk_step_2d (p1, g1) = Some (p2, g2)"
      "trace g2 = trace g1 @ replicate k (Call Myrand)" by blast
  show ?case using s r by (simp add: replicate_app_Cons_same)
qed

lemma draws_not_Run_begin: "\<forall>e \<in> set (replicate k (Call Myrand)). \<not> is_Run_begin e"
  by simp

text \<open>One run of each walk: it begins, draws two seeds, seeds the worker with them, walks.\<close>

lemma run_1d_trace:
  "\<exists>g1 body. run_1d io_ok iterations run g = Some (if io_ok (nat run) then Inr g1 else Inl g1)
     \<and> trace g1 = trace g @ Run_begin (nat run) # body
     \<and> freshly_seeded body \<and> (\<forall>e \<in> set body. \<not> is_Run_begin e)"
proof (cases "io_ok (nat run)")
  case False
  then show ?thesis
    by (simp add: run_1d_def begin_run_def call_generate_seed_eq call_myrand_init_1d_eq)
next
  case True
  define g3 where "g3 = the (call_myrand_init_1d
      (snd (the (call_generate_seed (snd (the (call_generate_seed (begin_run run g)))))))
      (ucast (fst (the (call_generate_seed (begin_run run g)))))
      (ucast (fst (the (call_generate_seed (snd (the (call_generate_seed (begin_run run g)))))))))"
  obtain p g4 where w: "for_loop (nat iterations) 0 walk_step_1d (0, g3) = Some (p, g4)"
    "trace g4 = trace g3 @ replicate (nat iterations) (Call Myrand)"
    using walk_1d_trace by blast
  have "run_1d io_ok iterations run g = Some (Inr g4)"
    using True w(1)
    by (simp add: run_1d_def g3_def call_generate_seed_eq call_myrand_init_1d_eq)
  moreover have "\<exists>body. trace g4 = trace g @ Run_begin (nat run) # body
     \<and> freshly_seeded body \<and> (\<forall>e \<in> set body. \<not> is_Run_begin e)"
    unfolding w(2)
    by (simp add: g3_def begin_run_def call_generate_seed_eq call_myrand_init_1d_eq list_all_iff)
  ultimately show ?thesis using True by auto
qed

lemma run_2d_trace:
  assumes "io_ok (nat run)"
  shows "\<exists>g1 body. run_2d io_ok iterations run g = Some (Inr g1)
     \<and> trace g1 = trace g @ Run_begin (nat run) # body
     \<and> freshly_seeded body \<and> (\<forall>e \<in> set body. \<not> is_Run_begin e)"
proof -
  define g3 where "g3 = the (call_myrand_init_2d
      (snd (the (call_generate_seed_2d (snd (the (call_generate_seed_2d (begin_run run g)))))))
      (ucast (fst (the (call_generate_seed_2d (begin_run run g)))))
      (ucast (fst (the (call_generate_seed_2d
         (snd (the (call_generate_seed_2d (begin_run run g)))))))))"
  obtain p g4 where w: "for_loop (nat iterations) 0 walk_step_2d ((0, 0), g3) = Some (p, g4)"
    "trace g4 = trace g3 @ replicate (nat iterations) (Call Myrand)"
    using walk_2d_trace by blast
  have "run_2d io_ok iterations run g = Some (Inr g4)"
    using assms w(1)
    by (simp add: run_2d_def g3_def call_generate_seed_2d_eq call_myrand_init_2d_eq)
  moreover have "\<exists>body. trace g4 = trace g @ Run_begin (nat run) # body
     \<and> freshly_seeded body \<and> (\<forall>e \<in> set body. \<not> is_Run_begin e)"
    unfolding w(2)
    by (simp add: g3_def begin_run_def call_generate_seed_2d_eq call_myrand_init_2d_eq
        list_all_iff)
  ultimately show ?thesis by auto
qed

subsection \<open>The run loops of the two walks\<close>

lemma runs_begun_run:
  assumes "\<forall>e \<in> set body. \<not> is_Run_begin e"
  shows "runs_begun (tr @ Run_begin q # body) = runs_begun tr @ [q]"
proof -
  have "runs_begun (Run_begin q # body) = q # runs_begun body"
    by (simp add: runs_begun_def)
  then show ?thesis
    using runs_begun_calls [OF assms] by (simp add: runs_begun_append)
qed

lemma run_loop_1d_inv:
  assumes "\<forall>r \<in> set (runs_begun (trace g)). r < q \<and> freshly_seeded (run_segment r (trace g))"
    and "runs_begun (trace g) = [0..<q]"
  shows "\<exists>st g1. run_loop_1d k (int q) io_ok iterations g = Some (st, g1)
     \<and> (\<forall>r \<in> set (runs_begun (trace g1)). freshly_seeded (run_segment r (trace g1)))
     \<and> (st = EXIT_SUCCESS \<longrightarrow> runs_begun (trace g1) = [0..<q + k])
     \<and> (st = EXIT_SUCCESS \<longleftrightarrow> (\<forall>r. q \<le> r \<and> r < q + k \<longrightarrow> io_ok r))"
  using assms
proof (induction k arbitrary: q g)
  case 0
  then show ?case by auto
next
  case (Suc k)
  obtain g1 body where run:
    "run_1d io_ok iterations (int q) g = Some (if io_ok q then Inr g1 else Inl g1)"
    and tr: "trace g1 = trace g @ Run_begin q # body"
    and body: "freshly_seeded body" "\<forall>e \<in> set body. \<not> is_Run_begin e"
    using run_1d_trace [of io_ok iterations "int q" g] by auto
  have fresh: "\<forall>r \<in> set (runs_begun (trace g1)).
      r < Suc q \<and> freshly_seeded (run_segment r (trace g1))"
    unfolding tr using Suc.prems(1) body(2) body(1) by (rule freshly_seeded_extend)
  have begun: "runs_begun (trace g1) = [0..<Suc q]"
    unfolding tr using Suc.prems(2) body(2) by (simp add: runs_begun_run)
  show ?case
  proof (cases "io_ok q")
    case False
    then have "run_loop_1d (Suc k) (int q) io_ok iterations g = Some (EXIT_FAILURE, g1)"
      using run by simp
    moreover have "\<not> (\<forall>r. q \<le> r \<and> r < q + Suc k \<longrightarrow> io_ok r)"
      using False by auto
    ultimately show ?thesis using fresh by auto
  next
    case True
    have "run_loop_1d (Suc k) (int q) io_ok iterations g =
        run_loop_1d k (int q + 1) io_ok iterations g1"
      using run True by simp
    also have "int q + 1 = int (Suc q)" by simp
    finally have step: "run_loop_1d (Suc k) (int q) io_ok iterations g =
        run_loop_1d k (int (Suc q)) io_ok iterations g1" .
    obtain st g2 where IH: "run_loop_1d k (int (Suc q)) io_ok iterations g1 = Some (st, g2)"
      "\<forall>r \<in> set (runs_begun (trace g2)). freshly_seeded (run_segment r (trace g2))"
      "st = EXIT_SUCCESS \<longrightarrow> runs_begun (trace g2) = [0..<Suc q + k]"
      "st = EXIT_SUCCESS \<longleftrightarrow> (\<forall>r. Suc q \<le> r \<and> r < Suc q + k \<longrightarrow> io_ok r)"
      using Suc.IH [OF fresh begun] by blast
    have "(\<forall>r. q \<le> r \<and> r < q + Suc k \<longrightarrow> io_ok r) \<longleftrightarrow>
        (\<forall>r. Suc q \<le> r \<and> r < Suc q + k \<longrightarrow> io_ok r)"
    proof
      assume a: "\<forall>r. Suc q \<le> r \<and> r < Suc q + k \<longrightarrow> io_ok r"
      show "\<forall>r. q \<le> r \<and> r < q + Suc k \<longrightarrow> io_ok r"
      proof (intro allI impI)
        fix r assume "q \<le> r \<and> r < q + Suc k"
        then have "r = q \<or> (Suc q \<le> r \<and> r < Suc q + k)" by auto
        then show "io_ok r" using True a by auto
      qed
    qed auto
    then show ?thesis using step IH by simp
  qed
qed

lemma run_loop_2d_inv:
  assumes "\<forall>r \<in> set (runs_begun (trace g)). r < q \<and> freshly_seeded (run_segment r (trace g))"
    and "runs_begun (trace g) = [0..<q]"
  shows "\<exists>st g1. run_loop_2d k (int q) io_ok iterations g = Some (st, g1)
     \<and> (\<forall>r \<in> set (runs_begun (trace g1)). freshly_seeded (run_segment r (trace g1)))
     \<and> (st = EXIT_SUCCESS \<longrightarrow> runs_begun (trace g1) = [0..<q + k])
     \<and> (st = EXIT_SUCCESS \<longleftrightarrow> (\<forall>r. q \<le> r \<and> r < q + k \<longrightarrow> io_ok r))"
  using assms
proof (induction k arbitrary: q g)
  case 0
  then show ?case by auto
next
  case (Suc k)
  show ?case
  proof (cases "io_ok q")
    case False
    then have "run_loop_2d (Suc k) (int q) io_ok iterations g = Some (EXIT_FAILURE, g)"
      by (simp add: run_2d_def)
    moreover have "\<not> (\<forall>r. q \<le> r \<and> r < q + Suc k \<longrightarrow> io_ok r)"
      using False by auto
    ultimately show ?thesis using Suc.prems(1) by auto
  next
    case True
    then have "io_ok (nat (int q))" by simp
    from run_2d_trace [of io_ok "int q" iterations g, OF this]
    obtain g1 body where run: "run_2d io_ok iterations (int q) g = Some (Inr g1)"
      and tr: "trace g1 = trace g @ Run_begin q # body"
      and body: "freshly_seeded body" "\<forall>e \<in> set body. \<not> is_Run_begin e"
      by auto
    have fresh: "\<forall>r \<in> set (runs_begun (trace g1)).
        r < Suc q \<and> freshly_seeded (run_segment r (trace g1))"
      unfolding tr using Suc.prems(1) body(2) body(1) by (rule freshly_seeded_extend)
    have begun: "runs_begun (trace g1) = [0..<Suc q]"
      unfolding tr using Suc.prems(2) body(2) by (simp add: runs_begun_run)
    have "run_loop_2d (Suc k) (int q) io_ok iterations g =
        run_loop_2d k (int q + 1) io_ok iterations g1"
      using run by simp
    also have "int q + 1 = int (Suc q)" by simp
    finally have step: "run_loop_2d (Suc k) (int q) io_ok iterations g =
        run_loop_2d k (int (Suc q)) io_ok iterations g1" .
    obtain st g2 where IH: "run_loop_2d k (int (Suc q)) io_ok iterations g1 = Some (st, g2)"
      "\<forall>r \<in> set (runs_begun (trace g2)). freshly_seeded (run_segment r (trace g2))"
      "st = EXIT_SUCCESS \<longrightarrow> runs_begun (trace g2) = [0..<Suc q + k]"
      "st = EXIT_SUCCESS \<longleftrightarrow> (\<forall>r. Suc q \<le> r \<and> r < Suc q + k \<longrightarrow> io_ok r)"
      using Suc.IH [OF fresh begun] by blast
    have "(\<forall>r. q \<le> r \<and> r < q + Suc k \<longrightarrow> io_ok r) \<longleftrightarrow>
        (\<forall>r. Suc q \<le> r \<and> r < Suc q + k \<longrightarrow> io_ok r)"
    proof
      assume a: "\<forall>r. Suc q \<le> r \<and> r < Suc q + k \<longrightarrow> io_ok r"
      show "\<forall>r. q \<le> r \<and> r < q + Suc k \<longrightarrow> io_ok r"
      proof (intro allI impI)
        fix r assume "q \<le> r \<and> r < q + Suc k"
        then have "r = q \<or> (Suc q \<le> r \<and> r < Suc q + k)" by auto
        then show "io_ok r" using True a by auto
      qed
    qed auto
    then show ?thesis using step IH by simp
  qed
qed

lemma main_1d_runs:
  "\<exists>st g. main_1d io_ok runs iterations program_start = Some (st, g)
     \<and> (\<forall>r \<in> set (runs_begun (trace g)). freshly_seeded (run_segment r (trace g)))
     \<and> (st = EXIT_SUCCESS \<longrightarrow> runs_begun (trace g) = [0..<nat runs])
     \<and> (st = EXIT_SUCCESS \<longleftrightarrow> (\<forall>r < nat runs. io_ok r))"
proof -
  define g1 where "g1 = \<lparr>rng_state = \<lparr>state = 10079894750844561963, inc' = 135781\<rparr>,
           pcg32_random_state = \<lparr>state = 0, inc' = 0\<rparr>,
           trace = [Call (Seedgen_init 12345 67890)]\<rparr>"
  have b: "runs_begun (trace g1) = [0..<0]" by (simp add: g1_def runs_begun_def)
  then have a: "\<forall>r \<in> set (runs_begun (trace g1)).
      r < 0 \<and> freshly_seeded (run_segment r (trace g1))" by simp
  have "main_1d io_ok runs iterations program_start =
      run_loop_1d (nat runs) (int 0) io_ok iterations g1"
    by (simp add: main_1d_def call_seedgen_init_default g1_def)
  then show ?thesis
    using run_loop_1d_inv [OF a b, of "nat runs" io_ok iterations] by simp
qed

lemma main_2d_runs:
  "\<exists>st g. main_2d io_ok runs iterations t_target program_start = Some (st, g)
     \<and> (\<forall>r \<in> set (runs_begun (trace g)). freshly_seeded (run_segment r (trace g)))
     \<and> (st = EXIT_SUCCESS \<longrightarrow> runs_begun (trace g) = [0..<nat runs])
     \<and> (st = EXIT_SUCCESS \<longleftrightarrow>
          0 < runs \<and> 0 < iterations \<and> 0 < t_target \<and> (\<forall>r < nat runs. io_ok r))"
proof -
  define g1 where "g1 = \<lparr>rng_state = \<lparr>state = 10079894750844561963, inc' = 135781\<rparr>,
           pcg32_random_state = \<lparr>state = 0, inc' = 0\<rparr>,
           trace = [Call (Seedgen_init 12345 67890)]\<rparr>"
  have b: "runs_begun (trace g1) = [0..<0]" by (simp add: g1_def runs_begun_def)
  then have a: "\<forall>r \<in> set (runs_begun (trace g1)).
      r < 0 \<and> freshly_seeded (run_segment r (trace g1))" by simp
  show ?thesis
  proof (cases "runs \<le> 0 \<or> iterations \<le> 0 \<or> t_target \<le> 0")
    case True
    then have "main_2d io_ok runs iterations t_target program_start = Some (EXIT_FAILURE, g1)"
      by (simp add: main_2d_def call_seedgen_init_2d_default g1_def)
    then show ?thesis using b True by auto
  next
    case False
    then have "main_2d io_ok runs iterations t_target program_start =
        run_loop_2d (nat runs) (int 0) io_ok iterations g1"
      by (simp add: main_2d_def call_seedgen_init_2d_default g1_def)
    then show ?thesis
      using run_loop_2d_inv [OF a b, of "nat runs" io_ok iterations] False by simp
  qed
qed

subsection \<open>Counted loops with an invariant\<close>

lemma for_loop_inv:
  assumes "I i s"
    and "\<And>j s. i \<le> j \<Longrightarrow> j < i + int k \<Longrightarrow> I j s \<Longrightarrow> \<exists>s1. body j s = Some s1 \<and> I (j + 1) s1"
  shows "\<exists>s1. for_loop k i body s = Some s1 \<and> I (i + int k) s1"
  using assms
proof (induction k arbitrary: i s)
  case 0
  then show ?case by simp
next
  case (Suc k)
  obtain s1 where s1: "body i s = Some s1" "I (i + 1) s1"
    using Suc.prems(2) [of i s] Suc.prems(1) by auto
  have "\<exists>s2. for_loop k (i + 1) body s1 = Some s2 \<and> I (i + 1 + int k) s2"
  proof (rule Suc.IH [OF s1(2)])
    fix j s assume "i + 1 \<le> j" "j < i + 1 + int k" "I j s"
    then show "\<exists>s1. body j s = Some s1 \<and> I (j + 1) s1"
      using Suc.prems(2) [of j s] by simp
  qed
  moreover have "i + 1 + int k = i + int (Suc k)" by simp
  ultimately show ?case using s1(1) by (simp del: of_nat_Suc)
qed

text \<open>Two nested loops over the sites \<open>(x, y)\<close>, with an invariant in the flat index.\<close>

lemma nested_for_loop_inv:
  assumes l: "0 < l" and init: "J 0 s"
    and step: "\<And>x y s. 0 \<le> x \<Longrightarrow> x < l \<Longrightarrow> 0 \<le> y \<Longrightarrow> y < l \<Longrightarrow> J (x * l + y) s
                 \<Longrightarrow> \<exists>s1. f x y s = Some s1 \<and> J (x * l + y + 1) s1"
  shows "\<exists>s1. for_loop (nat l) 0 (\<lambda>x. for_loop (nat l) 0 (f x)) s = Some s1 \<and> J (l * l) s1"
proof -
  have row: "\<exists>s1. for_loop (nat l) 0 (f x) s = Some s1 \<and> J ((x + 1) * l) s1"
    if x: "0 \<le> x" "x < l" and J: "J (x * l) s" for x s
  proof -
    have "\<exists>s1. for_loop (nat l) 0 (f x) s = Some s1 \<and> J (x * l + (0 + int (nat l))) s1"
    proof (rule for_loop_inv [where I = "\<lambda>y. J (x * l + y)"])
      show "J (x * l + 0) s" using J by simp
    next
      fix y s assume "0 \<le> y" "y < 0 + int (nat l)" "J (x * l + y) s"
      then show "\<exists>s1. f x y s = Some s1 \<and> J (x * l + (y + 1)) s1"
        using step [of x y s] x by (simp add: add.assoc)
    qed
    moreover have "x * l + (0 + int (nat l)) = (x + 1) * l"
      using l by (simp add: algebra_simps)
    ultimately show ?thesis by simp
  qed
  have "\<exists>s1. for_loop (nat l) 0 (\<lambda>x. for_loop (nat l) 0 (f x)) s = Some s1
           \<and> J ((0 + int (nat l)) * l) s1"
  proof (rule for_loop_inv [where I = "\<lambda>x. J (x * l)"])
    show "J (0 * l) s" using init by simp
  next
    fix x s assume "0 \<le> x" "x < 0 + int (nat l)" "J (x * l) s"
    then show "\<exists>s1. for_loop (nat l) 0 (f x) s = Some s1 \<and> J ((x + 1) * l) s1"
      using row [of x s] l by simp
  qed
  then show ?thesis using l by simp
qed

subsection \<open>The lattice that initLattice builds\<close>

text \<open>The lattice after particle \<open>n\<close> has been placed on the site \<open>(x, y)\<close>.\<close>

definition place_result :: "lattice \<Rightarrow> int \<Rightarrow> int \<Rightarrow> int \<Rightarrow> lattice" where
  "place_result lat x y n =
     lat\<lparr>particleOfSite := (particleOfSite lat)[nat (x * L lat + y) := n],
         positionOfParticle := (positionOfParticle lat)
            [nat (n * DIM) := x, nat (n * DIM + 1) := y],
         zeroPositionOfParticle := (zeroPositionOfParticle lat)
            [nat (n * DIM) := x, nat (n * DIM + 1) := y],
         truePositionOfParticle := (truePositionOfParticle lat)
            [nat (n * DIM) := x, nat (n * DIM + 1) := y]\<rparr>"

lemma place_sequence:
  assumes al: "lattice_allocated lat"
    and n: "0 \<le> n" "n < L lat * L lat"
    and xy: "0 \<le> x" "x < L lat" "0 \<le> y" "y < L lat"
  shows "do {
           lat1 \<leftarrow> SITE_set lat x y n;
           lat2 \<leftarrow> POS_set lat1 n 0 x;
           lat3 \<leftarrow> POS_set lat2 n 1 y;
           lat4 \<leftarrow> ZERO_POS_set lat3 n 0 x;
           lat5 \<leftarrow> ZERO_POS_set lat4 n 1 y;
           lat6 \<leftarrow> TRUE_POS_set lat5 n 0 x;
           lat7 \<leftarrow> TRUE_POS_set lat6 n 1 y;
           k lat7
         } = k (place_result lat x y n)"
proof -
  define l where "l = L lat"
  have l: "0 < l" and lenS: "int (length (particleOfSite lat)) = l * l"
    and lenP: "int (length (positionOfParticle lat)) = l * l * DIM"
    and lenZ: "int (length (zeroPositionOfParticle lat)) = l * l * DIM"
    and lenT: "int (length (truePositionOfParticle lat)) = l * l * DIM"
    using al by (simp_all add: lattice_allocated_def l_def)
  have bi: "0 \<le> x * l + y" "x * l + y < l * l"
    using flat_index_bounds [OF l] xy by (simp_all add: l_def)
  have bp: "0 \<le> n * DIM" "n * DIM < l * l * DIM" "n * DIM + 1 < l * l * DIM"
    using n by (auto simp: DIM_def l_def)
  show ?thesis
    using bi bp lenS lenP lenZ lenT
    by (simp add: SITE_set_def POS_set_def ZERO_POS_set_def TRUE_POS_set_def array_set_def
        place_result_def l_def [symmetric])
qed

lemma place_occupied:
  assumes occ: "filter (\<lambda>p. p \<noteq> MY_EMPTY) S = map int [0..<nat n]"
    and empty: "\<forall>i. k \<le> i \<and> i < length S \<longrightarrow> S ! i = MY_EMPTY"
    and k: "k < length S" and n: "0 \<le> n"
  shows "filter (\<lambda>p. p \<noteq> MY_EMPTY) (S[k := n]) = map int [0..<nat (n + 1)]"
proof -
  let ?Q = "\<lambda>p. p \<noteq> MY_EMPTY"
  have rest: "filter ?Q (drop (Suc k) S) = []"
  proof -
    have "\<forall>e \<in> set (drop (Suc k) S). e = MY_EMPTY"
    proof
      fix e assume "e \<in> set (drop (Suc k) S)"
      then obtain j where "j < length (drop (Suc k) S)" "drop (Suc k) S ! j = e"
        by (auto simp: in_set_conv_nth)
      then show "e = MY_EMPTY" using empty by auto
    qed
    then show ?thesis by (simp add: filter_empty_conv)
  qed
  have "S = take k S @ S ! k # drop (Suc k) S" using k by (rule id_take_nth_drop)
  then have "filter ?Q S = filter ?Q (take k S) @ filter ?Q (S ! k # drop (Suc k) S)"
    by (metis filter_append)
  moreover have "S ! k = MY_EMPTY" using empty k by simp
  ultimately have old: "filter ?Q S = filter ?Q (take k S)" using rest by simp
  have "S[k := n] = take k S @ n # drop (Suc k) S" using k by (rule upd_conv_take_nth_drop)
  then have "filter ?Q (S[k := n]) = filter ?Q (take k S) @ filter ?Q (n # drop (Suc k) S)"
    by (metis filter_append)
  also have "\<dots> = filter ?Q S @ [n]" using old rest n by (simp add: MY_EMPTY_def)
  also have "\<dots> = map int [0..<nat n] @ [n]" using occ by simp
  also have "\<dots> = map int [0..<nat (n + 1)]"
  proof -
    have "nat (n + 1) = Suc (nat n)" using n by simp
    then show ?thesis using n by simp
  qed
  finally show ?thesis .
qed

lemma place_flat_consistent:
  assumes fc: "flat_consistent l S P n"
    and k: "k < length S" and n: "0 \<le> n" and lenP: "nat (n * DIM + 1) < length P"
  shows "flat_consistent l (S[k := n])
           (P[nat (n * DIM) := int k div l, nat (n * DIM + 1) := int k mod l]) (n + 1)"
  unfolding flat_consistent_def
proof (intro allI impI)
  let ?S = "S[k := n]"
  let ?P = "P[nat (n * DIM) := int k div l, nat (n * DIM + 1) := int k mod l]"
  fix i assume "i < length ?S"
  then have i: "i < length S" by simp
  have ab: "nat (n * DIM) \<noteq> nat (n * DIM + 1)" "nat (n * DIM) < length P"
    using n lenP by (simp_all add: DIM_def)
  show "?S ! i = MY_EMPTY \<or> (0 \<le> ?S ! i \<and> ?S ! i < n + 1
          \<and> ?P ! nat (?S ! i * DIM) = int i div l \<and> ?P ! nat (?S ! i * DIM + 1) = int i mod l)"
  proof (cases "i = k")
    case True
    then have "?S ! i = n" using k by simp
    moreover have "?P ! nat (n * DIM) = int k div l" using ab lenP by simp
    moreover have "?P ! nat (n * DIM + 1) = int k mod l" using lenP by simp
    ultimately show ?thesis using n True by simp
  next
    case False
    then have same: "?S ! i = S ! i" by simp
    from fc i have "S ! i = MY_EMPTY \<or> (0 \<le> S ! i \<and> S ! i < n
        \<and> P ! nat (S ! i * DIM) = int i div l \<and> P ! nat (S ! i * DIM + 1) = int i mod l)"
      by (simp add: flat_consistent_def)
    then show ?thesis
    proof
      assume "S ! i = MY_EMPTY"
      then show ?thesis using same by simp
    next
      assume p: "0 \<le> S ! i \<and> S ! i < n
        \<and> P ! nat (S ! i * DIM) = int i div l \<and> P ! nat (S ! i * DIM + 1) = int i mod l"
      then have ne: "nat (S ! i * DIM) \<noteq> nat (n * DIM)" "nat (S ! i * DIM) \<noteq> nat (n * DIM + 1)"
        "nat (S ! i * DIM + 1) \<noteq> nat (n * DIM)" "nat (S ! i * DIM + 1) \<noteq> nat (n * DIM + 1)"
        using n by (auto simp: DIM_def)
      then have "?P ! nat (S ! i * DIM) = P ! nat (S ! i * DIM)"
        "?P ! nat (S ! i * DIM + 1) = P ! nat (S ! i * DIM + 1)"
        by simp_all
      then show ?thesis using p same by simp
    qed
  qed
qed

lemma empty_lattice:
  assumes al: "lattice_allocated lat"
  shows "\<exists>S1. for_loop (nat (L lat)) 0
            (\<lambda>x. for_loop (nat (L lat)) 0 (\<lambda>y lat0. SITE_set lat0 x y MY_EMPTY)) lat =
          Some (lat\<lparr>particleOfSite := S1\<rparr>)
        \<and> length S1 = length (particleOfSite lat) \<and> (\<forall>i < length S1. S1 ! i = MY_EMPTY)"
proof -
  define l where "l = L lat"
  define S where "S = particleOfSite lat"
  have l: "0 < l" and lenS: "int (length S) = l * l"
    using al by (simp_all add: lattice_allocated_def l_def S_def)
  define J where "J = (\<lambda>k lat1. \<exists>S1. lat1 = lat\<lparr>particleOfSite := S1\<rparr>
      \<and> length S1 = length S \<and> (\<forall>i < nat k. S1 ! i = MY_EMPTY))"
  have "\<exists>lat1. for_loop (nat l) 0
            (\<lambda>x. for_loop (nat l) 0 ((\<lambda>x y lat0. SITE_set lat0 x y MY_EMPTY) x)) lat = Some lat1
          \<and> J (l * l) lat1"
  proof (rule nested_for_loop_inv [OF l])
    show "J 0 lat" unfolding J_def by (rule exI [of _ S]) (simp add: S_def)
  next
    fix x y lat1
    assume xy: "0 \<le> x" "x < l" "0 \<le> y" "y < l" and J: "J (x * l + y) lat1"
    note b = flat_index_bounds [OF l xy]
    from J obtain S1 where S1: "lat1 = lat\<lparr>particleOfSite := S1\<rparr>" "length S1 = length S"
      "\<forall>i < nat (x * l + y). S1 ! i = MY_EMPTY" unfolding J_def by blast
    have "SITE_set lat1 x y MY_EMPTY =
        Some (lat\<lparr>particleOfSite := S1[nat (x * l + y) := MY_EMPTY]\<rparr>)"
      using b lenS S1(1,2) by (simp add: SITE_set_def array_set_def l_def [symmetric])
    moreover have "\<forall>i < nat (x * l + y + 1). S1[nat (x * l + y) := MY_EMPTY] ! i = MY_EMPTY"
    proof (intro allI impI)
      fix i assume "i < nat (x * l + y + 1)"
      then have "i < nat (x * l + y) \<or> i = nat (x * l + y)" using b by auto
      moreover have "nat (x * l + y) < length S1" using b lenS S1(2) by simp
      ultimately show "S1[nat (x * l + y) := MY_EMPTY] ! i = MY_EMPTY"
        using S1(3) by (auto simp: nth_list_update)
    qed
    ultimately show "\<exists>s1. SITE_set lat1 x y MY_EMPTY = Some s1 \<and> J (x * l + y + 1) s1"
      unfolding J_def using S1(2) by auto
  qed
  then obtain lat1 S1 where r: "for_loop (nat l) 0
            (\<lambda>x. for_loop (nat l) 0 (\<lambda>y lat0. SITE_set lat0 x y MY_EMPTY)) lat = Some lat1"
    "lat1 = lat\<lparr>particleOfSite := S1\<rparr>" "length S1 = length S"
    "\<forall>i < nat (l * l). S1 ! i = MY_EMPTY"
    unfolding J_def by auto
  have "nat (l * l) = length S1" using lenS r(3) by simp
  then show ?thesis using r by (auto simp: l_def S_def)
qed

text \<open>
  \<open>initLattice\<close> completes on every allocated lattice, with one draw for each site, and
  leaves a consistent lattice: particle \<open>p\<close> is the \<open>p\<close>-th occupied site in the order
  of the loops.
\<close>

lemma initLattice_ok:
  assumes al: "lattice_allocated lat"
  shows "\<exists>n lat1 g1. initLattice rho (lat, g) = Some (n, lat1, g1)
     \<and> lattice_ok lat1 n \<and> L lat1 = L lat
     \<and> rng_state g1 = rng_state g
     \<and> trace g1 = trace g @ replicate (nat (L lat * L lat)) (Call Myrand)"
proof -
  define l where "l = L lat"
  have l: "0 < l" and lenS: "int (length (particleOfSite lat)) = l * l"
    using al by (simp_all add: lattice_allocated_def l_def)
  obtain S0 where e: "for_loop (nat l) 0
            (\<lambda>x. for_loop (nat l) 0 (\<lambda>y lat0. SITE_set lat0 x y MY_EMPTY)) lat =
          Some (lat\<lparr>particleOfSite := S0\<rparr>)"
    and lenS0: "length S0 = length (particleOfSite lat)"
    and S0: "\<forall>i < length S0. S0 ! i = MY_EMPTY"
    using empty_lattice [OF al] unfolding l_def by blast
  define lat0 where "lat0 = lat\<lparr>particleOfSite := S0\<rparr>"
  define J where "J = (\<lambda>k (s :: int \<times> lattice \<times> rng_globals). case s of (n, lat1, g1) \<Rightarrow>
      lattice_allocated lat1 \<and> L lat1 = l \<and> 0 \<le> n \<and> n \<le> k
      \<and> (\<forall>i. nat k \<le> i \<and> i < length (particleOfSite lat1) \<longrightarrow> particleOfSite lat1 ! i = MY_EMPTY)
      \<and> filter (\<lambda>p. p \<noteq> MY_EMPTY) (particleOfSite lat1) = map int [0..<nat n]
      \<and> flat_consistent l (particleOfSite lat1) (positionOfParticle lat1) n
      \<and> rng_state g1 = rng_state g
      \<and> trace g1 = trace g @ replicate (nat k) (Call Myrand))"
  have "\<exists>s1. for_loop (nat l) 0 (\<lambda>x. for_loop (nat l) 0 (initLattice_site rho x)) (0, lat0, g)
            = Some s1 \<and> J (l * l) s1"
  proof (rule nested_for_loop_inv [OF l])
    have "filter (\<lambda>p. p \<noteq> MY_EMPTY) S0 = []"
      using S0 by (auto simp: filter_empty_conv in_set_conv_nth)
    moreover have "flat_consistent l S0 (positionOfParticle lat) 0"
      using S0 by (simp add: flat_consistent_def)
    moreover have "lattice_allocated lat0"
      using al lenS0 by (simp add: lattice_allocated_def lat0_def)
    ultimately show "J 0 (0, lat0, g)"
      using S0 by (simp add: J_def lat0_def l_def)
  next
    fix x y s
    assume xy: "0 \<le> x" "x < l" "0 \<le> y" "y < l" and J: "J (x * l + y) s"
    note b = flat_index_bounds [OF l xy]
    obtain n lat1 g1 where s: "s = (n, lat1, g1)" by (cases s) auto
    define S where "S = particleOfSite lat1"
    define P where "P = positionOfParticle lat1"
    define k where "k = nat (x * l + y)"
    have al1: "lattice_allocated lat1" and L1: "L lat1 = l" and n: "0 \<le> n" "n \<le> x * l + y"
      and empty: "\<forall>i. k \<le> i \<and> i < length S \<longrightarrow> S ! i = MY_EMPTY"
      and occ: "filter (\<lambda>p. p \<noteq> MY_EMPTY) S = map int [0..<nat n]"
      and fc: "flat_consistent l S P n"
      and rs: "rng_state g1 = rng_state g"
      and tr: "trace g1 = trace g @ replicate k (Call Myrand)"
      using J unfolding J_def s S_def P_def k_def by simp_all
    have lenS1: "int (length S) = l * l" and lenP1: "int (length P) = l * l * DIM"
      using al1 L1 by (simp_all add: lattice_allocated_def S_def P_def)
    have kS: "k < length S" and ik: "int k = x * l + y" using b lenS1 by (simp_all add: k_def)
    have nV: "n < l * l" using n b by simp
    define v :: rat where "v = of_nat (unat (spec_output (state (pcg32_random_state g1)))) / 2 ^ 32"
    define g2 where "g2 = g1\<lparr>pcg32_random_state := (pcg32_random_state g1)
            \<lparr>state := spec_transition (inc' (pcg32_random_state g1))
                        (state (pcg32_random_state g1))\<rparr>,
         trace := trace g1 @ [Call Myrand]\<rparr>"
    have draw: "call_myrand g1 = Some (v, g2)"
      by (simp only: call_myrand_eq v_def g2_def)
    have g2: "rng_state g2 = rng_state g"
      "trace g2 = trace g @ replicate (nat (x * l + y + 1)) (Call Myrand)"
    proof -
      show "rng_state g2 = rng_state g" using rs by (simp add: g2_def)
      have "nat (x * l + y + 1) = Suc k" using b by (simp add: k_def)
      then show "trace g2 = trace g @ replicate (nat (x * l + y + 1)) (Call Myrand)"
        using tr by (simp add: g2_def replicate_append_same)
    qed
    show "\<exists>s1. initLattice_site rho x y s = Some s1 \<and> J (x * l + y + 1) s1"
    proof (cases "v < rho")
      case False
      then have "initLattice_site rho x y s = Some (n, lat1, g2)"
        by (simp add: initLattice_site_def s draw)
      moreover have "J (x * l + y + 1) (n, lat1, g2)"
      proof -
        have "\<forall>i. nat (x * l + y + 1) \<le> i \<and> i < length S \<longrightarrow> S ! i = MY_EMPTY"
          using empty b by (auto simp: k_def)
        then show ?thesis
          unfolding J_def using al1 L1 n occ fc g2 by (simp add: S_def P_def)
      qed
      ultimately show ?thesis by blast
    next
      case True
      have xy1: "0 \<le> x" "x < L lat1" "0 \<le> y" "y < L lat1" using xy L1 by simp_all
      have nV1: "n < L lat1 * L lat1" using nV L1 by simp
      have "initLattice_site rho x y s = Some (n + 1, place_result lat1 x y n, g2)"
        using True place_sequence [OF al1 n(1) nV1 xy1,
            of "\<lambda>lat7. Some (n + 1, lat7, g2)"]
        by (simp add: initLattice_site_def s draw)
      moreover have "J (x * l + y + 1) (n + 1, place_result lat1 x y n, g2)"
      proof -
        have Snew: "particleOfSite (place_result lat1 x y n) = S[k := n]"
          by (simp add: place_result_def S_def k_def L1)
        have dm: "int k div l = x" "int k mod l = y"
          using flat_index_div_mod [OF l xy(3,4), of x] ik by simp_all
        have Pnew: "positionOfParticle (place_result lat1 x y n) =
            P[nat (n * DIM) := int k div l, nat (n * DIM + 1) := int k mod l]"
          by (simp add: place_result_def P_def dm)
        have lenP: "nat (n * DIM + 1) < length P"
          using n(1) nV lenP1 by (simp add: DIM_def nat_less_iff)
        have a: "lattice_allocated (place_result lat1 x y n)" "L (place_result lat1 x y n) = l"
          using al1 L1 by (simp_all add: lattice_allocated_def place_result_def)
        have e: "\<forall>i. nat (x * l + y + 1) \<le> i \<and> i < length (S[k := n]) \<longrightarrow>
            S[k := n] ! i = MY_EMPTY"
          using empty b by (auto simp: k_def)
        have o: "filter (\<lambda>p. p \<noteq> MY_EMPTY) (S[k := n]) = map int [0..<nat (n + 1)]"
          using occ empty kS n(1) by (rule place_occupied)
        have f: "flat_consistent l (S[k := n])
            (P[nat (n * DIM) := int k div l, nat (n * DIM + 1) := int k mod l]) (n + 1)"
          using fc kS n(1) lenP by (rule place_flat_consistent)
        show ?thesis
          unfolding J_def using a e o f g2 n by (simp add: Snew Pnew)
      qed
      ultimately show ?thesis by blast
    qed
  qed
  then obtain n lat1 g1 where r:
    "for_loop (nat l) 0 (\<lambda>x. for_loop (nat l) 0 (initLattice_site rho x)) (0, lat0, g)
       = Some (n, lat1, g1)"
    and J: "J (l * l) (n, lat1, g1)" by auto
  have al1: "lattice_allocated lat1" and L1: "L lat1 = l" and n: "0 \<le> n"
    and occ: "occupied lat1 = map int [0..<nat n]"
    and fc: "flat_consistent l (particleOfSite lat1) (positionOfParticle lat1) n"
    and rs: "rng_state g1 = rng_state g"
    and tr: "trace g1 = trace g @ replicate (nat (l * l)) (Call Myrand)"
    using J unfolding J_def occupied_def by simp_all
  have "distinct (map int [0..<nat n])" by (simp add: distinct_map)
  then have "lattice_ok lat1 n"
    using al1 n occ fc L1 by (simp add: lattice_ok_iff_flat)
  moreover have "initLattice rho (lat, g) = Some (n, lat1, g1)"
    using e r by (simp add: initLattice_def l_def [symmetric] lat0_def)
  ultimately show ?thesis using L1 rs tr by (simp add: l_def)
qed

subsection \<open>The lattice gas: one seeding, then samples that only draw\<close>

lemma myInit_allocated:
  assumes "0 < l" "l * l * 16 < 2 ^ 63"
  shows "\<exists>lat. lattice_allocated lat \<and> L lat = l
     \<and> myInit l num_sweeps junk =
         Some (if 100 * c_div num_sweeps 100 \<noteq> num_sweeps then Inl EXIT_FAILURE else Inr lat)"
proof -
  have len: "length [0..l - 1] = nat l" using assms(1) by simp
  obtain plus where plus: "myInit_plusNeighbor l = Some plus"
    using assms(1) len by (simp add: myInit_plusNeighbor_def array_set_def)
  obtain minus where minus: "myInit_minusNeighbor l = Some minus"
    using assms(1) len by (simp add: myInit_minusNeighbor_def array_set_def)
  define lat where "lat = \<lparr>L = l,
                   particleOfSite = replicate (nat (l * l)) junk,
                   positionOfParticle = replicate (nat (l * l * DIM)) junk,
                   zeroPositionOfParticle = replicate (nat (l * l * DIM)) junk,
                   truePositionOfParticle = replicate (nat (l * l * DIM)) junk,
                   plusNeighbor = plus,
                   minusNeighbor = minus\<rparr>"
  have "lattice_allocated lat"
    using assms plus minus by (simp add: lattice_allocated_def lat_def DIM_def)
  moreover have "L lat = l" by (simp add: lat_def)
  moreover have "myInit l num_sweeps junk =
         Some (if 100 * c_div num_sweeps 100 \<noteq> num_sweeps then Inl EXIT_FAILURE else Inr lat)"
    using assms plus minus by (simp add: myInit_def lat_def DIM_def)
  ultimately show ?thesis by blast
qed

lemma updateLattice_attempt_L:
  assumes "updateLattice_attempt n (lat, g) = Some (lat1, g1)"
  shows "L lat1 = L lat"
  using assms
  by (auto simp: updateLattice_attempt_def SITE_set_def POS_set_def TRUE_POS_set_def
      split: bind_splits if_splits prod.splits)

lemma updateLattice_loop_L:
  assumes "updateLattice_loop k n (lat, g) = Some (lat1, g1)"
  shows "L lat1 = L lat"
  using assms
proof (induction k arbitrary: lat g)
  case 0
  then show ?case by simp
next
  case (Suc k)
  then obtain lat2 g2 where a: "updateLattice_attempt n (lat, g) = Some (lat2, g2)"
    and b: "updateLattice_loop k n (lat2, g2) = Some (lat1, g1)"
    by (auto split: bind_splits)
  show ?case using Suc.IH [OF b] updateLattice_attempt_L [OF a] by simp
qed

lemma sweeps_ok:
  assumes ok: "lattice_ok lat n"
  shows "\<exists>lat1 g1. for_loop k i (\<lambda>sweep. updateLattice n) (lat, g) = Some (lat1, g1)
     \<and> lattice_ok lat1 n \<and> L lat1 = L lat \<and> rng_state g1 = rng_state g
     \<and> trace g1 = trace g @ replicate (k * (2 * nat n)) (Call Myrand)"
proof -
  define I where "I = (\<lambda>j (s :: lattice \<times> rng_globals). case s of (lat1, g1) \<Rightarrow>
      lattice_ok lat1 n \<and> L lat1 = L lat \<and> rng_state g1 = rng_state g
      \<and> trace g1 = trace g @ replicate (nat (j - i) * (2 * nat n)) (Call Myrand))"
  have "\<exists>s1. for_loop k i (\<lambda>sweep. updateLattice n) (lat, g) = Some s1 \<and> I (i + int k) s1"
  proof (rule for_loop_inv)
    show "I i (lat, g)" using ok by (simp add: I_def)
  next
    fix j s assume j: "i \<le> j" "j < i + int k" and I: "I j s"
    obtain lat1 g1 where s: "s = (lat1, g1)" by (cases s) auto
    have ok1: "lattice_ok lat1 n" and L1: "L lat1 = L lat" and rs: "rng_state g1 = rng_state g"
      and tr: "trace g1 = trace g @ replicate (nat (j - i) * (2 * nat n)) (Call Myrand)"
      using I unfolding I_def s by simp_all
    have "0 < nat n \<longrightarrow> 0 < n" by simp
    from updateLattice_loop_ok [OF ok1 this, of g1]
    obtain lat2 g2 where u: "updateLattice_loop (nat n) n (lat1, g1) = Some (lat2, g2)"
      "lattice_ok lat2 n" "rng_state g2 = rng_state g1"
      "trace g2 = trace g1 @ replicate (2 * nat n) (Call Myrand)" by blast
    have L2: "L lat2 = L lat" using updateLattice_loop_L [OF u(1)] L1 by simp
    have "nat (j + 1 - i) = Suc (nat (j - i))" using j by simp
    then have "nat (j + 1 - i) * (2 * nat n) = nat (j - i) * (2 * nat n) + 2 * nat n"
      by (simp only: mult_Suc add.commute)
    then have "trace g2 = trace g @ replicate (nat (j + 1 - i) * (2 * nat n)) (Call Myrand)"
      using u(4) tr by (simp only: replicate_add append_assoc)
    then have "I (j + 1) (lat2, g2)"
      using u(2,3) L2 rs by (simp add: I_def)
    then show "\<exists>s1. updateLattice n s = Some s1 \<and> I (j + 1) s1"
      using u(1) by (simp add: s updateLattice_def)
  qed
  then show ?thesis by (auto simp: I_def)
qed

text \<open>One sample: it begins, and then only draws.\<close>

lemma sample_diff_coef_ok:
  assumes al: "lattice_allocated lat"
  shows "\<exists>n lat1 g1. sample_diff_coef rho num_sweeps sample (lat, g) = Some (lat1, g1)
     \<and> lattice_ok lat1 n \<and> L lat1 = L lat \<and> rng_state g1 = rng_state g
     \<and> trace g1 = trace g @ Run_begin (nat sample)
         # replicate (nat (L lat * L lat) + nat num_sweeps * (2 * nat n)) (Call Myrand)"
proof -
  from initLattice_ok [OF al, of rho "begin_run sample g"]
  obtain n lat1 g1 where i: "initLattice rho (lat, begin_run sample g) = Some (n, lat1, g1)"
    "lattice_ok lat1 n" "L lat1 = L lat" "rng_state g1 = rng_state (begin_run sample g)"
    "trace g1 = trace (begin_run sample g) @ replicate (nat (L lat * L lat)) (Call Myrand)"
    by blast
  from sweeps_ok [OF i(2), of "nat num_sweeps" 1 g1]
  obtain lat2 g2 where
    s: "for_loop (nat num_sweeps) 1 (\<lambda>sweep. updateLattice n) (lat1, g1) = Some (lat2, g2)"
    "lattice_ok lat2 n" "L lat2 = L lat1" "rng_state g2 = rng_state g1"
    "trace g2 = trace g1 @ replicate (nat num_sweeps * (2 * nat n)) (Call Myrand)"
    by blast
  have "sample_diff_coef rho num_sweeps sample (lat, g) = Some (lat2, g2)"
    using i(1) s(1) by (simp add: sample_diff_coef_def)
  moreover have "trace g2 = trace g @ Run_begin (nat sample)
         # replicate (nat (L lat * L lat) + nat num_sweeps * (2 * nat n)) (Call Myrand)"
    using s(5) i(5) by (simp add: begin_run_def replicate_add)
  moreover have "rng_state g2 = rng_state g" using s(4) i(4) by (simp add: begin_run_def)
  ultimately show ?thesis using s(2,3) i(3) by auto
qed

text \<open>The seeding of \<open>main\<close>, evaluated.\<close>

lemma master_seeded_gas:
  "seedgen_init_gas rng 12345 67890 = Some \<lparr>state = 10079894750844561963, inc' = 135781\<rparr>"
  by (simp add: seedgen_init_gas_def spec_transition_def)

lemma generate_seed_gas_eq: "generate_seed_gas rng = pcg32_random_r rng"
  by (simp only: generate_seed_gas_def pcg32_random_r_eq)

text \<open>
  On the master of the lattice gas the functions modelled from the specification and
  those of the two seed\_generator.c files present agree.
\<close>

lemma seed_generator_gas_agrees:
  "seedgen_init_gas rng st seq = seedgen_init rng st seq"
  "inc' rng AND 1 = 1 \<Longrightarrow> generate_seed_gas rng = generate_seed rng"
proof -
  show "seedgen_init_gas rng st seq = seedgen_init rng st seq"
    by (simp only: seedgen_init_gas_def seedgen_init_def pcg32_srandom_eq)
  assume "inc' rng AND 1 = 1"
  then have "inc' rng OR 1 = inc' rng" by (rule or_1_odd)
  then show "generate_seed_gas rng = generate_seed rng"
    by (simp add: generate_seed_gas_def generate_seed_eq spec_transition_def)
qed

lemma master_draw1:
  "generate_seed_gas \<lparr>state = 10079894750844561963, inc' = 135781\<rparr> =
     Some (2187804205, \<lparr>state = 14229433016599302388, inc' = 135781\<rparr>)"
  unfolding generate_seed_gas_eq
  by (simp add: pcg32_random_r_def rotate_expr_def shr_u32_def shl_u32_def Let_def)

lemma master_draw2:
  "generate_seed_gas \<lparr>state = 14229433016599302388, inc' = 135781\<rparr> =
     Some (622185135, \<lparr>state = 6803078337492998473, inc' = 135781\<rparr>)"
  unfolding generate_seed_gas_eq
  by (simp add: pcg32_random_r_def rotate_expr_def shr_u32_def shl_u32_def Let_def)

lemma worker_seeded:
  "myrand_init w 2187804205 622185135 =
     Some \<lparr>state = 3742400579686185211, inc' = 1244370271\<rparr>"
  by (simp add: myrand_init_def pcg32_srandom_r_eq spec_transition_def)

definition seeded_once :: rng_globals where
  "seeded_once =
     \<lparr>rng_state = \<lparr>state = 6803078337492998473, inc' = 135781\<rparr>,
      pcg32_random_state = \<lparr>state = 3742400579686185211, inc' = 1244370271\<rparr>,
      trace = [Call (Seedgen_init 12345 67890), Call (Generate_seed 2187804205),
               Call (Generate_seed 622185135), Call (Myrand_init 2187804205 622185135)]\<rparr>"

lemma main_diff_coef_seeding:
  "main_diff_coef fopen_ok l rho num_sweeps num_samples junk program_start =
     do {
       r \<leftarrow> myInit l num_sweeps junk;
       case r of
         Inl status \<Rightarrow> Some (status, seeded_once)
       | Inr lat \<Rightarrow>
           if \<not> fopen_ok then Some (EXIT_FAILURE, seeded_once)
           else do {
             (lat1, g5) \<leftarrow>
               for_loop (nat num_samples) 0 (sample_diff_coef rho num_sweeps) (lat, seeded_once);
             Some (EXIT_SUCCESS, g5)
           }
     }"
  unfolding seeded_once_def main_diff_coef_def
  by (simp add: call_seedgen_init_gas_def program_start_def master_seeded_gas
      call_generate_seed_gas_def call_myrand_init_def master_draw1 master_draw2 worker_seeded
      cong del: if_weak_cong)

lemma samples_ok:
  assumes al: "lattice_allocated lat"
  shows "\<exists>lat1 g1 rest. for_loop k 0 (sample_diff_coef rho num_sweeps) (lat, g) = Some (lat1, g1)
     \<and> trace g1 = trace g @ rest
     \<and> (\<forall>e \<in> set rest. e = Call Myrand \<or> is_Run_begin e)
     \<and> runs_begun rest = [0..<k]"
proof -
  define I where "I = (\<lambda>j (s :: lattice \<times> rng_globals). case s of (lat1, g1) \<Rightarrow>
      lattice_allocated lat1
      \<and> (\<exists>rest. trace g1 = trace g @ rest
            \<and> (\<forall>e \<in> set rest. e = Call Myrand \<or> is_Run_begin e)
            \<and> runs_begun rest = [0..<nat j]))"
  have "\<exists>s1. for_loop k 0 (sample_diff_coef rho num_sweeps) (lat, g) = Some s1
          \<and> I (0 + int k) s1"
  proof (rule for_loop_inv)
    have "trace g = trace g @ [] \<and> (\<forall>e \<in> set []. e = Call Myrand \<or> is_Run_begin e)
        \<and> runs_begun [] = [0..<nat 0]"
      by (simp add: runs_begun_def)
    then show "I 0 (lat, g)" unfolding I_def using al by blast
  next
    fix j s assume j: "0 \<le> j" "j < 0 + int k" and I: "I j s"
    obtain lat1 g1 where s: "s = (lat1, g1)" by (cases s) auto
    from I obtain rest where al1: "lattice_allocated lat1"
      and rest: "trace g1 = trace g @ rest" "\<forall>e \<in> set rest. e = Call Myrand \<or> is_Run_begin e"
        "runs_begun rest = [0..<nat j]"
      unfolding I_def s by auto
    from sample_diff_coef_ok [OF al1, of rho num_sweeps j g1]
    obtain n lat2 g2 where
      r: "sample_diff_coef rho num_sweeps j (lat1, g1) = Some (lat2, g2)" "lattice_ok lat2 n"
      "trace g2 = trace g1 @ Run_begin (nat j)
         # replicate (nat (L lat1 * L lat1) + nat num_sweeps * (2 * nat n)) (Call Myrand)"
      by blast
    define draws where
      "draws = replicate (nat (L lat1 * L lat1) + nat num_sweeps * (2 * nat n)) (Call Myrand)"
    have d: "\<forall>e \<in> set draws. \<not> is_Run_begin e" "\<forall>e \<in> set draws. e = Call Myrand"
      by (simp_all add: draws_def)
    have "nat (j + 1) = Suc (nat j)" using j by simp
    then have "runs_begun (rest @ Run_begin (nat j) # draws) = [0..<nat (j + 1)]"
      using runs_begun_run [OF d(1), of rest "nat j"] rest(3) by simp
    moreover have "\<forall>e \<in> set (rest @ Run_begin (nat j) # draws). e = Call Myrand \<or> is_Run_begin e"
      using rest(2) d(2) by auto
    moreover have "trace g2 = trace g @ rest @ Run_begin (nat j) # draws"
      using r(3) rest(1) by (simp add: draws_def)
    moreover have "lattice_allocated lat2" using r(2) by (simp add: lattice_ok_def)
    ultimately have "I (j + 1) (lat2, g2)" unfolding I_def by blast
    then show "\<exists>s1. sample_diff_coef rho num_sweeps j s = Some s1 \<and> I (j + 1) s1"
      using r(1) s by simp
  qed
  then show ?thesis by (auto simp: I_def)
qed

text \<open>A run that only draws is not freshly seeded.\<close>

lemma run_segment_subset: "set (run_segment r tr) \<subseteq> set tr"
proof
  fix e assume "e \<in> set (run_segment r tr)"
  then have "e \<in> set (drop 1 (dropWhile (\<lambda>e. e \<noteq> Run_begin r) tr))"
    unfolding run_segment_def by (rule set_takeWhileD [THEN conjunct1])
  then have "e \<in> set (dropWhile (\<lambda>e. e \<noteq> Run_begin r) tr)" by (rule in_set_dropD)
  then show "e \<in> set tr" by (rule set_dropWhileD)
qed

lemma freshly_seeded_first:
  assumes "freshly_seeded seg"
  shows "\<exists>a. Call (Generate_seed a) \<in> set seg"
  using assms by (rule freshly_seeded.elims) auto

lemma draws_not_freshly_seeded:
  assumes init: "\<forall>e \<in> set init. \<not> is_Run_begin e"
    and rest: "\<forall>e \<in> set rest. e = Call Myrand \<or> is_Run_begin e"
  shows "\<not> freshly_seeded (run_segment r (init @ rest))"
proof
  assume f: "freshly_seeded (run_segment r (init @ rest))"
  have "\<And>e. e \<in> set init \<Longrightarrow> e \<noteq> Run_begin r" using init by auto
  then have "dropWhile (\<lambda>e. e \<noteq> Run_begin r) (init @ rest) =
      dropWhile (\<lambda>e. e \<noteq> Run_begin r) rest"
    by (rule dropWhile_append2)
  then have "run_segment r (init @ rest) = run_segment r rest"
    by (simp add: run_segment_def)
  with f obtain a where "Call (Generate_seed a) \<in> set (run_segment r rest)"
    using freshly_seeded_first by fastforce
  then have "Call (Generate_seed a) \<in> set rest"
    using run_segment_subset by blast
  with rest show False by auto
qed

lemma main_diff_coef_runs:
  assumes "0 < l" "l * l * 16 < 2 ^ 63"
  shows "\<exists>st g rest. main_diff_coef fopen_ok l rho num_sweeps num_samples junk program_start =
         Some (st, g)
     \<and> trace g = [Call (Seedgen_init 12345 67890), Call (Generate_seed 2187804205),
                  Call (Generate_seed 622185135), Call (Myrand_init 2187804205 622185135)] @ rest
     \<and> (\<forall>e \<in> set rest. e = Call Myrand \<or> is_Run_begin e)
     \<and> (\<forall>r. \<not> freshly_seeded (run_segment r (trace g)))
     \<and> (st = EXIT_SUCCESS \<longleftrightarrow> fopen_ok \<and> 100 * c_div num_sweeps 100 = num_sweeps)
     \<and> (st = EXIT_SUCCESS \<longrightarrow> runs_begun (trace g) = [0..<nat num_samples])"
proof -
  let ?init = "[Call (Seedgen_init 12345 67890), Call (Generate_seed 2187804205),
                Call (Generate_seed 622185135), Call (Myrand_init 2187804205 622185135)]"
  have init: "\<forall>e \<in> set ?init. \<not> is_Run_begin e" by simp
  have tr0: "trace seeded_once = ?init" by (simp add: seeded_once_def)
  have b0: "runs_begun ?init = []" by (simp add: runs_begun_def)
  obtain lat where lat: "lattice_allocated lat"
    "myInit l num_sweeps junk =
       Some (if 100 * c_div num_sweeps 100 \<noteq> num_sweeps then Inl EXIT_FAILURE else Inr lat)"
    using myInit_allocated [OF assms] by blast
  have key: "\<exists>st g rest. main_diff_coef fopen_ok l rho num_sweeps num_samples junk program_start =
         Some (st, g)
     \<and> trace g = ?init @ rest
     \<and> (\<forall>e \<in> set rest. e = Call Myrand \<or> is_Run_begin e)
     \<and> (st = EXIT_SUCCESS \<longleftrightarrow> fopen_ok \<and> 100 * c_div num_sweeps 100 = num_sweeps)
     \<and> (st = EXIT_SUCCESS \<longrightarrow> runs_begun rest = [0..<nat num_samples])"
  proof (cases "fopen_ok \<and> 100 * c_div num_sweeps 100 = num_sweeps")
    case False
    then have "main_diff_coef fopen_ok l rho num_sweeps num_samples junk program_start =
        Some (EXIT_FAILURE, seeded_once)"
      using lat(2) by (auto simp: main_diff_coef_seeding)
    moreover have "trace seeded_once = ?init @ []" using tr0 by simp
    ultimately show ?thesis using False by fastforce
  next
    case True
    from samples_ok [OF lat(1), of "nat num_samples" rho num_sweeps seeded_once]
    obtain lat1 g1 rest where
      s: "for_loop (nat num_samples) 0 (sample_diff_coef rho num_sweeps) (lat, seeded_once) =
            Some (lat1, g1)"
      "trace g1 = trace seeded_once @ rest"
      "\<forall>e \<in> set rest. e = Call Myrand \<or> is_Run_begin e"
      "runs_begun rest = [0..<nat num_samples]" by blast
    have "main_diff_coef fopen_ok l rho num_sweeps num_samples junk program_start =
        Some (EXIT_SUCCESS, g1)"
      using True lat(2) s(1) by (simp add: main_diff_coef_seeding)
    then show ?thesis using s(2,3,4) tr0 True by fastforce
  qed
  then obtain st g rest where
    r: "main_diff_coef fopen_ok l rho num_sweeps num_samples junk program_start = Some (st, g)"
    "trace g = ?init @ rest" "\<forall>e \<in> set rest. e = Call Myrand \<or> is_Run_begin e"
    "st = EXIT_SUCCESS \<longleftrightarrow> fopen_ok \<and> 100 * c_div num_sweeps 100 = num_sweeps"
    "st = EXIT_SUCCESS \<longrightarrow> runs_begun rest = [0..<nat num_samples]" by blast
  have "\<forall>r. \<not> freshly_seeded (run_segment r (trace g))"
    unfolding r(2) using draws_not_freshly_seeded [OF init r(3)] by blast
  moreover have "runs_begun (trace g) = runs_begun rest"
    unfolding r(2) using b0 by (simp only: runs_begun_append append_Nil)
  ultimately show ?thesis using r by auto
qed

subsection \<open>C9: which programs seed the worker for each run\<close>

text \<open>
  C9 as stated fails for the lattice gas. \<open>main\<close> of diff\_coef.c calls \<open>generate_seed\<close>
  twice and \<open>myrand_init\<close> once, before the loop over the samples (its comment: one global
  seeding), and no sample calls them again. With \<open>L = 2\<close>, \<open>rho = 0.5\<close>, \<open>num_sweeps = 0\<close>
  and \<open>num_samples = 2\<close> the program exits with success after the calls below: sample 1
  consists of the four draws of \<open>initLattice\<close>, from the worker that was seeded before
  sample 0, so it is not freshly seeded.
\<close>

theorem C9_counterexample:
  "map_option fst (main_diff_coef True 2 (1 / 2) 0 2 0 program_start) = Some EXIT_SUCCESS
   \<and> map_option (trace \<circ> snd) (main_diff_coef True 2 (1 / 2) 0 2 0 program_start) =
       Some [Call (Seedgen_init 12345 67890), Call (Generate_seed 2187804205),
             Call (Generate_seed 622185135), Call (Myrand_init 2187804205 622185135),
             Run_begin 0, Call Myrand, Call Myrand, Call Myrand, Call Myrand,
             Run_begin 1, Call Myrand, Call Myrand, Call Myrand, Call Myrand]
   \<and> run_segment 1
         [Call (Seedgen_init 12345 67890), Call (Generate_seed 2187804205),
          Call (Generate_seed 622185135), Call (Myrand_init 2187804205 622185135),
          Run_begin 0, Call Myrand, Call Myrand, Call Myrand, Call Myrand,
          Run_begin 1, Call Myrand, Call Myrand, Call Myrand, Call Myrand] =
       [Call Myrand, Call Myrand, Call Myrand, Call Myrand]
   \<and> \<not> freshly_seeded [Call Myrand, Call Myrand, Call Myrand, Call Myrand]"
proof -
  have "(0 :: int) < 2" "(2 :: int) * 2 * 16 < 2 ^ 63" by simp_all
  from myInit_allocated [OF this, of 0 0]
  obtain lat where lat: "lattice_allocated lat" "L lat = 2" "myInit 2 0 0 = Some (Inr lat)"
    by (auto simp: c_div_def)
  from sample_diff_coef_ok [OF lat(1), of "1 / 2" 0 0 seeded_once]
  obtain n1 lat1 g1 where s0: "sample_diff_coef (1 / 2) 0 0 (lat, seeded_once) = Some (lat1, g1)"
    "lattice_ok lat1 n1" "L lat1 = 2"
    "trace g1 = trace seeded_once @ Run_begin 0 # replicate 4 (Call Myrand)"
    using lat(2) by auto
  have al1: "lattice_allocated lat1" using s0(2) by (simp add: lattice_ok_def)
  from sample_diff_coef_ok [OF al1, of "1 / 2" 0 1 g1]
  obtain n2 lat2 g2 where s1: "sample_diff_coef (1 / 2) 0 1 (lat1, g1) = Some (lat2, g2)"
    "trace g2 = trace g1 @ Run_begin 1 # replicate 4 (Call Myrand)"
    using s0(3) by auto
  have "for_loop (Suc (Suc 0)) 0 (sample_diff_coef (1 / 2) 0) (lat, seeded_once) =
      Some (lat2, g2)"
    using s0(1) s1(1) by simp
  moreover have "nat 2 = Suc (Suc 0)" by simp
  ultimately have "main_diff_coef True 2 (1 / 2) 0 2 0 program_start = Some (EXIT_SUCCESS, g2)"
    using lat(3) by (simp only: main_diff_coef_seeding) simp
  moreover have "trace g2 =
         [Call (Seedgen_init 12345 67890), Call (Generate_seed 2187804205),
          Call (Generate_seed 622185135), Call (Myrand_init 2187804205 622185135),
          Run_begin 0, Call Myrand, Call Myrand, Call Myrand, Call Myrand,
          Run_begin 1, Call Myrand, Call Myrand, Call Myrand, Call Myrand]"
    using s0(4) s1(2) by (simp add: seeded_once_def numeral_eq_Suc)
  ultimately show ?thesis by (simp add: run_segment_def)
qed

text \<open>
  C9, as amended. The two walks seed the worker for each run: in main\_dat.c and in
  2d\_ran\_walk.c every run that begins makes two calls of \<open>generate_seed\<close>, then the call
  \<open>myrand_init(seed1, seed2)\<close> with the two values returned, and then only calls of
  \<open>myrand\<close> until the next run begins; when no allocation and no \<open>fopen\<close> fails (and, for
  the 2D walk, the three inputs are positive) the runs \<open>0, \<dots>, runs - 1\<close> all begin. The
  lattice gas does not: for every lattice side \<open>L > 0\<close> whose arrays fit in memory,
  diff\_coef.c completes, the calls it makes are \<open>seedgen_init(12345, 67890)\<close>, two calls
  of \<open>generate_seed\<close> and one call of \<open>myrand_init\<close>, once and before the first sample, and
  after them only beginnings of samples and calls of \<open>myrand\<close>: no sample is seeded, all
  samples draw from the one worker stream.
\<close>

theorem C9_walks_seed_each_run_lattice_gas_seeds_once:
  "(\<exists>st g. main_1d io_ok runs iterations program_start = Some (st, g)
      \<and> (\<forall>r \<in> set (runs_begun (trace g)). freshly_seeded (run_segment r (trace g)))
      \<and> (st = EXIT_SUCCESS \<longrightarrow> runs_begun (trace g) = [0..<nat runs])
      \<and> (st = EXIT_SUCCESS \<longleftrightarrow> (\<forall>r < nat runs. io_ok r)))
   \<and> (\<exists>st g. main_2d io_ok runs iterations t_target program_start = Some (st, g)
      \<and> (\<forall>r \<in> set (runs_begun (trace g)). freshly_seeded (run_segment r (trace g)))
      \<and> (st = EXIT_SUCCESS \<longrightarrow> runs_begun (trace g) = [0..<nat runs])
      \<and> (st = EXIT_SUCCESS \<longleftrightarrow>
           0 < runs \<and> 0 < iterations \<and> 0 < t_target \<and> (\<forall>r < nat runs. io_ok r)))
   \<and> (0 < l \<longrightarrow> l * l * 16 < 2 ^ 63 \<longrightarrow>
       (\<exists>st g rest.
          main_diff_coef fopen_ok l rho num_sweeps num_samples junk program_start = Some (st, g)
          \<and> trace g =
              [Call (Seedgen_init 12345 67890), Call (Generate_seed 2187804205),
               Call (Generate_seed 622185135), Call (Myrand_init 2187804205 622185135)] @ rest
          \<and> (\<forall>e \<in> set rest. e = Call Myrand \<or> is_Run_begin e)
          \<and> (\<forall>r. \<not> freshly_seeded (run_segment r (trace g)))
          \<and> (st = EXIT_SUCCESS \<longleftrightarrow> fopen_ok \<and> 100 * c_div num_sweeps 100 = num_sweeps)
          \<and> (st = EXIT_SUCCESS \<longrightarrow> runs_begun (trace g) = [0..<nat num_samples])))"
proof (intro conjI impI)
  show "\<exists>st g. main_1d io_ok runs iterations program_start = Some (st, g)
      \<and> (\<forall>r \<in> set (runs_begun (trace g)). freshly_seeded (run_segment r (trace g)))
      \<and> (st = EXIT_SUCCESS \<longrightarrow> runs_begun (trace g) = [0..<nat runs])
      \<and> (st = EXIT_SUCCESS \<longleftrightarrow> (\<forall>r < nat runs. io_ok r))"
    by (rule main_1d_runs)
  show "\<exists>st g. main_2d io_ok runs iterations t_target program_start = Some (st, g)
      \<and> (\<forall>r \<in> set (runs_begun (trace g)). freshly_seeded (run_segment r (trace g)))
      \<and> (st = EXIT_SUCCESS \<longrightarrow> runs_begun (trace g) = [0..<nat runs])
      \<and> (st = EXIT_SUCCESS \<longleftrightarrow>
           0 < runs \<and> 0 < iterations \<and> 0 < t_target \<and> (\<forall>r < nat runs. io_ok r))"
    by (rule main_2d_runs)
next
  assume "0 < l" "l * l * 16 < 2 ^ 63"
  then show "\<exists>st g rest.
          main_diff_coef fopen_ok l rho num_sweeps num_samples junk program_start = Some (st, g)
          \<and> trace g =
              [Call (Seedgen_init 12345 67890), Call (Generate_seed 2187804205),
               Call (Generate_seed 622185135), Call (Myrand_init 2187804205 622185135)] @ rest
          \<and> (\<forall>e \<in> set rest. e = Call Myrand \<or> is_Run_begin e)
          \<and> (\<forall>r. \<not> freshly_seeded (run_segment r (trace g)))
          \<and> (st = EXIT_SUCCESS \<longleftrightarrow> fopen_ok \<and> 100 * c_div num_sweeps 100 = num_sweeps)
          \<and> (st = EXIT_SUCCESS \<longrightarrow> runs_begun (trace g) = [0..<nat num_samples])"
    by (rule main_diff_coef_runs)
qed

theorem C9_walks_seed_each_run_lattice_gas_seeds_once_witness:
  "(\<exists>g. main_1d (\<lambda>r. True) 2 3 program_start = Some (EXIT_SUCCESS, g)
      \<and> runs_begun (trace g) = [0, 1]
      \<and> freshly_seeded (run_segment 0 (trace g)) \<and> freshly_seeded (run_segment 1 (trace g)))
   \<and> (\<exists>g. main_2d (\<lambda>r. True) 2 3 1 program_start = Some (EXIT_SUCCESS, g)
      \<and> runs_begun (trace g) = [0, 1]
      \<and> freshly_seeded (run_segment 0 (trace g)) \<and> freshly_seeded (run_segment 1 (trace g)))
   \<and> (0 :: int) < 2 \<and> (2 :: int) * 2 * 16 < 2 ^ 63
   \<and> (\<exists>g rest. main_diff_coef True 2 (1 / 2) 100 2 0 program_start = Some (EXIT_SUCCESS, g)
      \<and> trace g =
          [Call (Seedgen_init 12345 67890), Call (Generate_seed 2187804205),
           Call (Generate_seed 622185135), Call (Myrand_init 2187804205 622185135)] @ rest
      \<and> runs_begun (trace g) = [0, 1]
      \<and> \<not> freshly_seeded (run_segment 0 (trace g))
      \<and> \<not> freshly_seeded (run_segment 1 (trace g)))"
proof -
  note C9 = C9_walks_seed_each_run_lattice_gas_seeds_once
    [of "\<lambda>r. True" 2 3 1 2 True "1 / 2" 100 2 0]
  have two: "[0..<nat 2] = [0, 1]" by (simp add: numeral_eq_Suc)
  have sweeps: "100 * c_div 100 100 = 100" by (simp add: c_div_def)
  from C9 [THEN conjunct1]
  obtain st1 g1 where a: "main_1d (\<lambda>r. True) 2 3 program_start = Some (st1, g1)"
    "\<forall>r \<in> set (runs_begun (trace g1)). freshly_seeded (run_segment r (trace g1))"
    "st1 = EXIT_SUCCESS \<longrightarrow> runs_begun (trace g1) = [0..<nat 2]"
    "st1 = EXIT_SUCCESS" by auto
  have one: "\<exists>g. main_1d (\<lambda>r. True) 2 3 program_start = Some (EXIT_SUCCESS, g)
      \<and> runs_begun (trace g) = [0, 1]
      \<and> freshly_seeded (run_segment 0 (trace g)) \<and> freshly_seeded (run_segment 1 (trace g))"
    using a two by auto
  from C9 [THEN conjunct2, THEN conjunct1]
  obtain st2 g2 where b: "main_2d (\<lambda>r. True) 2 3 1 program_start = Some (st2, g2)"
    "\<forall>r \<in> set (runs_begun (trace g2)). freshly_seeded (run_segment r (trace g2))"
    "st2 = EXIT_SUCCESS \<longrightarrow> runs_begun (trace g2) = [0..<nat 2]"
    "st2 = EXIT_SUCCESS" by auto
  have plane: "\<exists>g. main_2d (\<lambda>r. True) 2 3 1 program_start = Some (EXIT_SUCCESS, g)
      \<and> runs_begun (trace g) = [0, 1]
      \<and> freshly_seeded (run_segment 0 (trace g)) \<and> freshly_seeded (run_segment 1 (trace g))"
    using b two by auto
  have side: "(0 :: int) < 2" "(2 :: int) * 2 * 16 < 2 ^ 63" by simp_all
  from C9 [THEN conjunct2, THEN conjunct2, rule_format, OF side]
  obtain st3 g3 rest where
    c: "main_diff_coef True 2 (1 / 2) 100 2 0 program_start = Some (st3, g3)"
    "trace g3 =
       [Call (Seedgen_init 12345 67890), Call (Generate_seed 2187804205),
        Call (Generate_seed 622185135), Call (Myrand_init 2187804205 622185135)] @ rest"
    "\<forall>r. \<not> freshly_seeded (run_segment r (trace g3))"
    "st3 = EXIT_SUCCESS \<longleftrightarrow> True \<and> 100 * c_div 100 100 = (100 :: int)"
    "st3 = EXIT_SUCCESS \<longrightarrow> runs_begun (trace g3) = [0..<nat 2]" by blast
  have "st3 = EXIT_SUCCESS" using c(4) sweeps by simp
  then have gas: "\<exists>g rest. main_diff_coef True 2 (1 / 2) 100 2 0 program_start =
        Some (EXIT_SUCCESS, g)
      \<and> trace g =
          [Call (Seedgen_init 12345 67890), Call (Generate_seed 2187804205),
           Call (Generate_seed 622185135), Call (Myrand_init 2187804205 622185135)] @ rest
      \<and> runs_begun (trace g) = [0, 1]
      \<and> \<not> freshly_seeded (run_segment 0 (trace g))
      \<and> \<not> freshly_seeded (run_segment 1 (trace g))"
    using c two by auto
  show ?thesis using one plane side gas by blast
qed

end
